theory Spec2Isabelle
  imports Complex_Main "HOL-Library.AList" "HOL-Library.Multiset"
begin

section \<open>Python values used by Net\_monitor.py\<close>

text \<open>
  A \<open>datetime\<close> is a naive local time, counted in microseconds on the naive time line:
  \<open>datetime.now()\<close> is an input of every operation that reads the clock, and the
  difference of two datetimes is the difference of the counts.

  A Python \<open>str\<close> is the list of the bytes of its UTF-8 encoding. UTF-8 is
  self-synchronising, so \<open>needle in haystack\<close> on the code points is the sublist test on
  the encodings.

  Text built by an f-string is kept as a constructor holding the values that the template
  interpolates; the comment beside each constructor gives the template.
\<close>

type_synonym datetime = int

datatype exn = OSError | ValueError | AttributeError | ZeroDivisionError | KeyError

datatype log_text =
    Stamp datetime           \<comment> \<open>\<open>f"[{ts.strftime('%H:%M:%S')}] "\<close>\<close>
  | Exchange string string   \<comment> \<open>\<open>f"<Exchange with> {self.name}[{self.ip}]\n"\<close>\<close>
  | No_reply                 \<comment> \<open>the constant line for a lost probe\<close>
  | Reply_received           \<comment> \<open>the constant line for an answered probe\<close>

type_synonym log_entry = "log_text \<times> string option"

datatype summary_line =
    Closed datetime datetime string   \<comment> \<open>start, end, \<open>self.name\<close>\<close>
  | Ongoing datetime string           \<comment> \<open>start, \<open>self.name\<close>: "until now"\<close>
  | No_issues                         \<comment> \<open>\<open>self.lang.get('no_issues', ...)\<close>\<close>

datatype loss_text =
    Loss_zero                \<comment> \<open>the label text ending in \<open>0%\<close>\<close>
  | Loss_pct string          \<comment> \<open>the label text ending in \<open>{loss_pct:.2f}%\<close>; the digits\<close>

datatype error_msg =
    Monitor_failed string exn   \<comment> \<open>\<open>log_error\<close> in \<open>_monitor\<close>: \<open>self.ip\<close>, the exception\<close>
  | Save_log_failed exn         \<comment> \<open>\<open>log_error\<close> in \<open>_save_log\<close>\<close>
  | Save_json_failed exn        \<comment> \<open>\<open>log_error\<close> in \<open>_save_json\<close>\<close>

datatype probe =
    Probe_raises exn         \<comment> \<open>\<open>subprocess.run\<close> raised\<close>
  | Probe_out string         \<comment> \<open>\<open>res.stdout.decode('cp866', errors='ignore')\<close>\<close>

subsection \<open>Substring test\<close>

fun starts_with :: "'a list \<Rightarrow> 'a list \<Rightarrow> bool" where
  "starts_with [] ys = True"
| "starts_with (x # xs) [] = False"
| "starts_with (x # xs) (y # ys) = (x = y \<and> starts_with xs ys)"

fun contains :: "'a list \<Rightarrow> 'a list \<Rightarrow> bool" where
  "contains p [] = (p = [])"
| "contains p (y # ys) = (starts_with p (y # ys) \<or> contains p ys)"

definition loss_en :: string where
  "loss_en = ''100% loss''"

definition loss_ru :: string where
  \<comment> \<open>\<open>100% \<close> followed by the UTF-8 bytes of the six Cyrillic letters of the source\<close>
  "loss_ru = ''100% '' @ [CHR 0xD0, CHR 0xBF, CHR 0xD0, CHR 0xBE, CHR 0xD1, CHR 0x82,
                          CHR 0xD0, CHR 0xB5, CHR 0xD1, CHR 0x80, CHR 0xD1, CHR 0x8C]"

definition lost_in :: "string \<Rightarrow> bool" where
  "lost_in out = (contains loss_en out \<or> contains loss_ru out)"

subsection \<open>Binary64 arithmetic and \<open>.2f\<close> formatting\<close>

text \<open>
  A finite Python \<open>float\<close> is the rational it denotes. Every operation returns the exact
  result rounded to the nearest binary64 value, ties to even (53 significant bits,
  gradual underflow below \<open>2^-1022\<close>). Overflow is not modelled: the values computed here
  lie between 0 and 100.
\<close>

definition rne :: "rat \<Rightarrow> int" where
  "rne x = (let f = \<lfloor>x\<rfloor>; d = x - of_int f in
     if d < 1/2 then f else if 1/2 < d then f + 1 else if even f then f else f + 1)"

definition pow2 :: "int \<Rightarrow> rat" where
  "pow2 e = (if 0 \<le> e then 2 ^ nat e else 1 / 2 ^ nat (- e))"

function bit_length :: "int \<Rightarrow> int" where
  "bit_length n = (if n \<le> 0 then 0 else 1 + bit_length (n div 2))"
  by pat_completeness auto
termination
  by (relation "measure nat") auto

declare bit_length.simps [simp del]

definition exponent :: "rat \<Rightarrow> int" where
  \<comment> \<open>the \<open>e\<close> with \<open>2^e \<le> |x| < 2^(e+1)\<close>, for \<open>x \<noteq> 0\<close>\<close>
  "exponent x = (let (a, b) = quotient_of \<bar>x\<bar>; k = bit_length a - bit_length b
     in if pow2 k \<le> \<bar>x\<bar> then k else k - 1)"

definition binary64 :: "rat \<Rightarrow> rat" where
  "binary64 x = (if x = 0 then 0 else
     let q = max (exponent x) (- 1022) - 52 in of_int (rne (x / pow2 q)) * pow2 q)"

definition truediv :: "int \<Rightarrow> int \<Rightarrow> exn + rat" where
  \<comment> \<open>\<open>a / b\<close> on two \<open>int\<close>s\<close>
  "truediv a b = (if b = 0 then Inl ZeroDivisionError else Inr (binary64 (of_int a / of_int b)))"

function digits :: "int \<Rightarrow> string" where
  \<comment> \<open>the decimal digits of a number that is not negative\<close>
  "digits n = (if n < 10 then [char_of (48 + n)] else digits (n div 10) @ [char_of (48 + n mod 10)])"
  by pat_completeness auto
termination
  by (relation "measure nat") auto

declare digits.simps [simp del]

definition format_2f :: "rat \<Rightarrow> string" where
  \<comment> \<open>\<open>f"{x:.2f}"\<close>: the exact value of the float, correctly rounded to two decimals\<close>
  "format_2f x = (let h = rne (\<bar>x\<bar> * 100) in
     (if x < 0 then ''-'' else '''') @ digits (h div 100) @ ''.'' @
     [char_of (48 + h mod 100 div 10), char_of (48 + h mod 10)])"

definition loss_pct :: "int list \<Rightarrow> exn + rat" where
  \<comment> \<open>\<open>(1 - sum(self.availability)/len(self.availability)) * 100\<close>\<close>
  "loss_pct buf = (case truediv (sum_list buf) (int (length buf)) of
       Inl e \<Rightarrow> Inl e
     | Inr q \<Rightarrow> Inr (binary64 (binary64 (1 - q) * 100)))"

section \<open>The objects\<close>

text \<open>
  \<open>DeviceMonitor.__init__\<close> assigns neither \<open>downtime_summary\<close> nor \<open>is_monitoring\<close>:
  each of the two fields is \<open>None\<close> while the object has no such attribute.
  The tuple that closes an interval holds \<open>self.current_downtime_start\<close> as it is, so the
  start of a recorded interval is an optional datetime as well.

  Of the widgets of a tile the record keeps the text of the loss label and, as \<open>frame\<close>, the
  row that is the parent of the tile. The canvas and the name label are functions of the
  other fields, and the check box is an input of the operation that reads it. A call
  \<open>root.after(0, f)\<close> is taken as the call of \<open>f\<close>; no other call into Tk is modelled.
\<close>

record DeviceMonitor =
  ip :: string
  name :: string
  availability :: "int list"
  is_down :: bool
  current_downtime_start :: "datetime option"
  downtime_summary :: "(datetime option \<times> datetime) list option"
  is_monitoring :: "bool option"
  packet_loss_label :: loss_text
  frame :: nat

text \<open>
  Objects live in a store: a reference is an index into \<open>objects\<close>, and \<open>monitors\<close> holds
  references, as the Python list holds the objects themselves. \<open>row_frames\<close> keeps, for each
  row frame, the number of its children. \<open>settings\<close> is the value of
  \<open>self.settings['devices']\<close> (a dict in insertion order), \<open>None\<close> when the loaded settings
  have no such key. The last five fields are the world outside the two classes: the running
  monitor threads, the lines of the error log, the log files written, the settings file as
  last written, and the timers created (True while one is armed).
\<close>

type_synonym ref = nat

record NetMonitorApp =
  objects :: "DeviceMonitor list"
  monitors :: "ref list"
  row_frames :: "nat list"
  full_log :: "log_entry list"
  auto_save_timer :: "nat option"
  start_time :: "datetime option"
  timer_running :: bool
  last_save_time :: "datetime option"
  settings :: "(string \<times> string) list option"
  timer_label :: string
  summary_view :: "summary_line list option"
  threads :: "ref list"
  error_log :: "error_msg list"
  log_files :: "(datetime \<times> log_text list) list"
  settings_file :: "(string \<times> string) list option option"
  timers :: "bool list"

definition deref :: "NetMonitorApp \<Rightarrow> ref \<Rightarrow> DeviceMonitor" where
  "deref a r = objects a ! r"

definition store :: "ref \<Rightarrow> DeviceMonitor \<Rightarrow> NetMonitorApp \<Rightarrow> NetMonitorApp" where
  "store r m a = a\<lparr>objects := (objects a)[r := m]\<rparr>"

definition log_error :: "error_msg \<Rightarrow> NetMonitorApp \<Rightarrow> NetMonitorApp" where
  "log_error msg a = a\<lparr>error_log := error_log a @ [msg]\<rparr>"

fun index_of :: "'a \<Rightarrow> 'a list \<Rightarrow> nat option" where
  \<comment> \<open>\<open>list.index\<close>: the first position, \<open>None\<close> where Python raises ValueError\<close>
  "index_of x [] = None"
| "index_of x (y # ys) = (if x = y then Some 0 else map_option Suc (index_of x ys))"

section \<open>DeviceMonitor\<close>

definition DeviceMonitor_init :: "nat \<Rightarrow> string \<Rightarrow> string \<Rightarrow> NetMonitorApp \<Rightarrow> ref \<times> NetMonitorApp" where
  \<comment> \<open>\<open>DeviceMonitor(parent, ip, name, app_ref)\<close>; the tile becomes a child of \<open>parent\<close>\<close>
  "DeviceMonitor_init parent addr nm a =
     (length (objects a),
      a\<lparr>objects := objects a @
           [\<lparr>ip = addr, name = nm, availability = [], is_down = False,
             current_downtime_start = None, downtime_summary = None,
             is_monitoring = None, packet_loss_label = Loss_zero, frame = parent\<rparr>],
        row_frames := (row_frames a)[parent := Suc (row_frames a ! parent)]\<rparr>)"

definition start_monitoring :: "ref \<Rightarrow> NetMonitorApp \<Rightarrow> NetMonitorApp" where
  "start_monitoring self a =
     (let a1 = store self ((deref a self)\<lparr>is_monitoring := Some True\<rparr>) a
      in a1\<lparr>threads := threads a1 @ [self]\<rparr>)"

definition stop_monitoring :: "ref \<Rightarrow> NetMonitorApp \<Rightarrow> NetMonitorApp" where
  "stop_monitoring self a = store self ((deref a self)\<lparr>is_monitoring := Some False\<rparr>) a"

definition reset :: "ref \<Rightarrow> NetMonitorApp \<Rightarrow> NetMonitorApp" where
  \<comment> \<open>the canvas that \<open>_update_ui\<close> redraws is a function of \<open>availability\<close> and is not kept\<close>
  "reset self a = store self ((deref a self)\<lparr>availability := [], packet_loss_label := Loss_zero\<rparr>) a"

subsection \<open>One pass of the loop of \<open>_monitor\<close>\<close>

text \<open>
  The body of the \<open>try\<close> is three blocks. A block that raises returns \<open>Inl\<close> with the
  exception and the state as the assignments before the raise have left it.
\<close>

definition downtime_transition ::
  "ref \<Rightarrow> bool \<Rightarrow> datetime \<Rightarrow> NetMonitorApp \<Rightarrow> (exn \<times> NetMonitorApp) + NetMonitorApp" where
  "downtime_transition self lost ts a =
     (let m = deref a self in
      if lost \<and> \<not> is_down m then
        Inr (store self (m\<lparr>is_down := True, current_downtime_start := Some ts\<rparr>) a)
      else if \<not> lost \<and> is_down m then
        (let a1 = store self (m\<lparr>is_down := False\<rparr>) a in
         case index_of self (monitors a1) of
           None \<Rightarrow> Inl (ValueError, a1)
         | Some i \<Rightarrow>
            (let target = monitors a1 ! i in
             case downtime_summary (deref a1 target) of
               None \<Rightarrow> Inl (AttributeError, a1)
             | Some l \<Rightarrow>
                (let a2 = store target ((deref a1 target)
                            \<lparr>downtime_summary := Some (l @ [(current_downtime_start (deref a1 self), ts)])\<rparr>) a1
                 in Inr (store self ((deref a2 self)\<lparr>current_downtime_start := None\<rparr>) a2))))
      else Inr a)"

definition entry :: "ref \<Rightarrow> bool \<Rightarrow> datetime \<Rightarrow> NetMonitorApp \<Rightarrow> log_entry list" where
  "entry self lost ts a =
     [(Stamp ts, None),
      (Exchange (name (deref a self)) (ip (deref a self)), None),
      (if lost then No_reply else Reply_received, if lost then Some ''error'' else None)]"

definition extend_log :: "log_entry list \<Rightarrow> NetMonitorApp \<Rightarrow> NetMonitorApp" where
  \<comment> \<open>\<open>with self.app.log_lock: self.app.full_log.extend(entry)\<close>\<close>
  "extend_log es a = a\<lparr>full_log := full_log a @ es\<rparr>"

definition push_sample :: "int list \<Rightarrow> int \<Rightarrow> int list" where
  \<comment> \<open>\<open>append(status)\<close>, then \<open>pop(0)\<close> when the length is above 720\<close>
  "push_sample buf status = (let b = buf @ [status] in if 720 < length b then tl b else b)"

definition record_sample ::
  "ref \<Rightarrow> int \<Rightarrow> NetMonitorApp \<Rightarrow> (exn \<times> NetMonitorApp) + NetMonitorApp" where
  "record_sample self status a =
     (let a1 = store self ((deref a self)\<lparr>availability := push_sample (availability (deref a self)) status\<rparr>) a in
      case loss_pct (availability (deref a1 self)) of
        Inl e \<Rightarrow> Inl (e, a1)
      | Inr x \<Rightarrow> Inr (store self ((deref a1 self)\<lparr>packet_loss_label := Loss_pct (format_2f x)\<rparr>) a1))"

definition monitor_body ::
  "ref \<Rightarrow> probe \<Rightarrow> datetime \<Rightarrow> NetMonitorApp \<Rightarrow> (exn \<times> NetMonitorApp) + NetMonitorApp" where
  "monitor_body self p ts a =
     (case p of
        Probe_raises e \<Rightarrow> Inl (e, a)
      | Probe_out out \<Rightarrow>
         (let lost = lost_in out; status = (if lost then 0 else 1) in
          case downtime_transition self lost ts a of
            Inl x \<Rightarrow> Inl x
          | Inr a1 \<Rightarrow> record_sample self status (extend_log (entry self lost ts a1) a1)))"

definition monitor_iteration :: "ref \<Rightarrow> probe \<times> datetime \<Rightarrow> NetMonitorApp \<Rightarrow> NetMonitorApp" where
  \<comment> \<open>the \<open>try\<close> with its \<open>except Exception\<close>; \<open>time.sleep(5)\<close> changes no state\<close>
  "monitor_iteration self ev a =
     (case monitor_body self (fst ev) (snd ev) a of
        Inl (e, a1) \<Rightarrow> log_error (Monitor_failed (ip (deref a1 self)) e) a1
      | Inr a1 \<Rightarrow> a1)"

text \<open>
  The loop runs while \<open>self.is_monitoring\<close> is true (on an object without the attribute the
  test raises outside the \<open>try\<close> and the thread ends). The list holds what the passes to
  come will read from the probe and the clock; the loop stops where the list ends.
\<close>

fun monitor_loop :: "ref \<Rightarrow> (probe \<times> datetime) list \<Rightarrow> NetMonitorApp \<Rightarrow> NetMonitorApp" where
  "monitor_loop self [] a = a"
| "monitor_loop self (ev # evs) a =
     (if is_monitoring (deref a self) = Some True
      then monitor_loop self evs (monitor_iteration self ev a)
      else a)"

fun closed_lines :: "string \<Rightarrow> (datetime option \<times> datetime) list \<Rightarrow> exn + summary_line list" where
  \<comment> \<open>the \<open>for start, end in ...\<close> loop; \<open>start.strftime\<close> raises when \<open>start\<close> is \<open>None\<close>\<close>
  "closed_lines nm [] = Inr []"
| "closed_lines nm ((None, e) # rest) = Inl AttributeError"
| "closed_lines nm ((Some s, e) # rest) =
     (case closed_lines nm rest of Inl x \<Rightarrow> Inl x | Inr ls \<Rightarrow> Inr (Closed s e nm # ls))"

definition recorded_intervals :: "DeviceMonitor \<Rightarrow> (datetime option \<times> datetime) list" where
  \<comment> \<open>\<open>getattr(self, 'downtime_summary', [])\<close>\<close>
  "recorded_intervals m = (case downtime_summary m of None \<Rightarrow> [] | Some l \<Rightarrow> l)"

definition get_downtime_summary :: "DeviceMonitor \<Rightarrow> exn + summary_line list" where
  "get_downtime_summary m =
     (case closed_lines (name m) (recorded_intervals m) of
        Inl e \<Rightarrow> Inl e
      | Inr ls \<Rightarrow>
          Inr (ls @ (case current_downtime_start m of
                       Some d \<Rightarrow> if is_down m then [Ongoing d (name m)] else []
                     | None \<Rightarrow> [])))"

section \<open>NetMonitorApp\<close>

definition TILE_COLUMNS :: nat where
  "TILE_COLUMNS = 8"

definition AUTO_SAVE_INTERVAL :: int where
  "AUTO_SAVE_INTERVAL = 86400"

fun init_device_tiles :: "nat \<Rightarrow> (string \<times> string) list \<Rightarrow> NetMonitorApp \<Rightarrow> NetMonitorApp" where
  "init_device_tiles idx [] a = a"
| "init_device_tiles idx ((addr, nm) # ds) a =
     (let a1 = (if idx mod TILE_COLUMNS = 0 then a\<lparr>row_frames := row_frames a @ [0]\<rparr> else a);
          (r, a2) = DeviceMonitor_init (length (row_frames a1) - 1) addr nm a1
      in init_device_tiles (Suc idx) ds (a2\<lparr>monitors := monitors a2 @ [r]\<rparr>))"

definition NetMonitorApp_init :: "(string \<times> string) list option \<Rightarrow> NetMonitorApp" where
  \<comment> \<open>\<open>__init__\<close> up to \<open>_setup_ui\<close>, on the loaded value of the settings' devices\<close>
  "NetMonitorApp_init devs =
     init_device_tiles 0 (case devs of None \<Rightarrow> [] | Some ds \<Rightarrow> ds)
       \<lparr>objects = [], monitors = [], row_frames = [], full_log = [], auto_save_timer = None,
        start_time = None, timer_running = False, last_save_time = None, settings = devs,
        timer_label = ''0:00:00:00'', summary_view = None, threads = [], error_log = [],
        log_files = [], settings_file = None, timers = []\<rparr>"

definition save_json :: "exn option \<Rightarrow> NetMonitorApp \<Rightarrow> NetMonitorApp" where
  \<comment> \<open>\<open>_save_json(SETTINGS_FILE, self.settings)\<close>; \<open>io\<close> is the exception of the write, if any\<close>
  "save_json io a =
     (case io of
        None \<Rightarrow> a\<lparr>settings_file := Some (settings a)\<rparr>
      | Some e \<Rightarrow> log_error (Save_json_failed e) a)"

definition save_log ::
  "bool \<Rightarrow> datetime \<Rightarrow> exn option \<Rightarrow> datetime \<Rightarrow> NetMonitorApp \<Rightarrow> bool \<times> NetMonitorApp" where
  \<comment> \<open>\<open>ts\<close> names the file, \<open>io\<close> is the exception of \<open>open\<close> or \<open>write\<close>, if any, and
      \<open>finished\<close> is the clock after the write; the message box of \<open>notify\<close> is not kept\<close>
  "save_log notify ts io finished a =
     (case io of
        None \<Rightarrow> (True, a\<lparr>log_files := log_files a @ [(ts, map fst (full_log a))],
                        last_save_time := Some finished\<rparr>)
      | Some e \<Rightarrow> (False, log_error (Save_log_failed e) a))"

definition clear_log :: "NetMonitorApp \<Rightarrow> NetMonitorApp" where
  "clear_log a = a\<lparr>full_log := []\<rparr>"

definition auto_save_job ::
  "datetime \<Rightarrow> datetime \<Rightarrow> exn option \<Rightarrow> datetime \<Rightarrow> NetMonitorApp \<Rightarrow> NetMonitorApp" where
  \<comment> \<open>\<open>job\<close> of \<open>_schedule_auto_save\<close>: \<open>now\<close> is the clock of the test, the other three
      are what \<open>_save_log\<close> reads; a new timer is created and armed\<close>
  "auto_save_job now ts io finished a =
     (let a1 = (if timer_running a \<and>
                   (case last_save_time a of
                      None \<Rightarrow> False
                    | Some l \<Rightarrow> AUTO_SAVE_INTERVAL * 1000000 \<le> now - l)
                then snd (save_log False ts io finished a) else a)
      in a1\<lparr>timers := timers a1 @ [True], auto_save_timer := Some (length (timers a1))\<rparr>)"

definition cancel_timer :: "NetMonitorApp \<Rightarrow> NetMonitorApp" where
  \<comment> \<open>\<open>if self.auto_save_timer: self.auto_save_timer.cancel()\<close>\<close>
  "cancel_timer a =
     (case auto_save_timer a of None \<Rightarrow> a | Some t \<Rightarrow> a\<lparr>timers := (timers a)[t := False]\<rparr>)"

definition app_start_monitoring ::
  "datetime \<Rightarrow> datetime \<Rightarrow> datetime \<Rightarrow> exn option \<Rightarrow> datetime \<Rightarrow> NetMonitorApp \<Rightarrow> NetMonitorApp" where
  \<comment> \<open>\<open>_start_monitoring\<close>: \<open>started\<close> is the clock it reads, the rest goes to \<open>job\<close>\<close>
  "app_start_monitoring started now ts io finished a =
     (let a1 = (if \<not> timer_running a
                then auto_save_job now ts io finished
                       (a\<lparr>timer_running := True, start_time := Some started,
                          last_save_time := Some started\<rparr>)
                else a)
      in foldl (\<lambda>s m. start_monitoring m s) a1 (monitors a1))"

definition app_stop_monitoring :: "NetMonitorApp \<Rightarrow> NetMonitorApp" where
  "app_stop_monitoring a =
     (let a1 = (if timer_running a then cancel_timer (a\<lparr>timer_running := False\<rparr>) else a)
      in foldl (\<lambda>s m. stop_monitoring m s) a1 (monitors a1))"

definition reset_all :: "NetMonitorApp \<Rightarrow> NetMonitorApp" where
  "reset_all a =
     (foldl (\<lambda>s m. reset m s) a (monitors a))
       \<lparr>start_time := None, timer_running := False, timer_label := ''0:00:00:00''\<rparr>"

definition add_device ::
  "string option \<Rightarrow> string option \<Rightarrow> exn option \<Rightarrow> NetMonitorApp \<Rightarrow> (exn \<times> NetMonitorApp) + NetMonitorApp" where
  \<comment> \<open>\<open>_add_device\<close>: the answers of the two dialogs (\<open>None\<close> when cancelled) and the
      exception of the settings write, if any\<close>
  "add_device ip_answer name_answer io a =
     (case ip_answer of
        None \<Rightarrow> Inr a
      | Some addr \<Rightarrow>
          if addr = [] then Inr a
          else (case settings a of
             None \<Rightarrow> Inl (KeyError, a)
           | Some devs \<Rightarrow>
               if addr \<in> set (map fst devs) then Inr a
               else (case name_answer of
                  None \<Rightarrow> Inr a
                | Some nm \<Rightarrow>
                    if nm = [] then Inr a
                    else
                      (let a1 = (if row_frames a = [] \<or> TILE_COLUMNS \<le> last (row_frames a)
                                 then a\<lparr>row_frames := row_frames a @ [0]\<rparr> else a);
                           (r, a2) = DeviceMonitor_init (length (row_frames a1) - 1) addr nm a1;
                           a3 = a2\<lparr>monitors := monitors a2 @ [r],
                                   settings := Some (AList.update addr nm devs)\<rparr>;
                           a4 = save_json io a3
                       in Inr (if timer_running a4 then start_monitoring r a4 else a4)))))"

definition rename_device ::
  "ref \<Rightarrow> string option \<Rightarrow> exn option \<Rightarrow> NetMonitorApp \<Rightarrow> (exn \<times> NetMonitorApp) + NetMonitorApp" where
  \<comment> \<open>\<open>_rename_device\<close>: the answer of the dialog and the exception of the settings write\<close>
  "rename_device self answer io a =
     (case answer of
        None \<Rightarrow> Inr a
      | Some nm \<Rightarrow>
          if nm = [] then Inr a
          else
            (let a1 = store self ((deref a self)\<lparr>name := nm\<rparr>) a in
             case settings a1 of
               None \<Rightarrow> Inl (KeyError, a1)
             | Some devs \<Rightarrow>
                 Inr (save_json io (a1\<lparr>settings := Some (AList.update (ip (deref a1 self)) nm devs)\<rparr>))))"

fun delete_each :: "ref list \<Rightarrow> NetMonitorApp \<Rightarrow> (exn \<times> NetMonitorApp) + NetMonitorApp" where
  \<comment> \<open>the \<open>for m in to_del\<close> loop of \<open>_delete_devices\<close>\<close>
  "delete_each [] a = Inr a"
| "delete_each (m # ms) a =
     (let a1 = stop_monitoring m a in
      if m \<notin> set (monitors a1) then Inl (ValueError, a1)
      else
        (let a2 = a1\<lparr>monitors := remove1 m (monitors a1)\<rparr> in
         case settings a2 of
           None \<Rightarrow> Inl (KeyError, a2)
         | Some devs \<Rightarrow>
             (let a3 = a2\<lparr>settings := Some (AList.delete (ip (deref a2 m)) devs)\<rparr>;
                  row = frame (deref a3 m)
              in delete_each ms (a3\<lparr>row_frames := (row_frames a3)[row := row_frames a3 ! row - 1]\<rparr>))))"

definition delete_devices ::
  "(ref \<Rightarrow> bool) \<Rightarrow> bool \<Rightarrow> exn option \<Rightarrow> NetMonitorApp \<Rightarrow> (exn \<times> NetMonitorApp) + NetMonitorApp" where
  \<comment> \<open>\<open>_delete_devices\<close>: the check boxes, the answer to the question and the exception of
      the settings write\<close>
  "delete_devices selected confirmed io a =
     (let to_del = filter selected (monitors a) in
      if to_del = [] then Inr a
      else if \<not> confirmed then Inr a
      else (case delete_each to_del a of
              Inl x \<Rightarrow> Inl x
            | Inr a1 \<Rightarrow> Inr (save_json io a1)))"

definition two_digits :: "int \<Rightarrow> string" where
  \<comment> \<open>\<open>{n:02}\<close> for \<open>0 \<le> n < 100\<close>\<close>
  "two_digits n = [char_of (48 + n div 10), char_of (48 + n mod 10)]"

definition update_timer :: "datetime \<Rightarrow> NetMonitorApp \<Rightarrow> NetMonitorApp" where
  \<comment> \<open>\<open>_update_timer\<close>: days, and the seconds of the day as hours, minutes and seconds\<close>
  "update_timer now a =
     (case start_time a of
        None \<Rightarrow> a
      | Some t0 \<Rightarrow>
          if timer_running a then
            (let delta = now - t0; d = delta div (86400 * 1000000);
                 rem = (delta div 1000000) mod 86400;
                 h = rem div 3600; m = (rem mod 3600) div 60; sec = (rem mod 3600) mod 60
             in a\<lparr>timer_label := (if d < 0 then ''-'' @ digits (- d) else digits d) @ '':'' @
                     two_digits h @ '':'' @ two_digits m @ '':'' @ two_digits sec\<rparr>)
          else a)"

fun all_lines :: "DeviceMonitor list \<Rightarrow> exn + summary_line list" where
  \<comment> \<open>\<open>sum((m.get_downtime_summary() for m in self.monitors), [])\<close>\<close>
  "all_lines [] = Inr []"
| "all_lines (m # ms) =
     (case get_downtime_summary m of
        Inl e \<Rightarrow> Inl e
      | Inr l \<Rightarrow> (case all_lines ms of Inl e \<Rightarrow> Inl e | Inr ls \<Rightarrow> Inr (l @ ls)))"

definition show_summary_upd :: "NetMonitorApp \<Rightarrow> exn + NetMonitorApp" where
  \<comment> \<open>\<open>upd\<close> of \<open>_show_summary\<close> while the window exists; the view holds the lines that
      are joined, or the placeholder where the joined text is empty\<close>
  "show_summary_upd a =
     (case all_lines (map (deref a) (monitors a)) of
        Inl e \<Rightarrow> Inl e
      | Inr ls \<Rightarrow> Inr (a\<lparr>summary_view := Some (if ls = [] then [No_issues] else ls)\<rparr>))"

section \<open>What a run of the loop does, pass by pass\<close>

text \<open>
  A pass appends its sample when it reaches the third block, that is when neither the probe
  nor the first block raises. \<open>appended_samples\<close> lists the samples of the passes of a run
  that do, in the order of the passes.
\<close>

definition pass_sample :: "ref \<Rightarrow> probe \<times> datetime \<Rightarrow> NetMonitorApp \<Rightarrow> int option" where
  "pass_sample self ev a =
     (case fst ev of
        Probe_raises e \<Rightarrow> None
      | Probe_out out \<Rightarrow>
          (case downtime_transition self (lost_in out) (snd ev) a of
             Inl x \<Rightarrow> None
           | Inr a1 \<Rightarrow> Some (if lost_in out then 0 else 1)))"

fun appended_samples :: "ref \<Rightarrow> (probe \<times> datetime) list \<Rightarrow> NetMonitorApp \<Rightarrow> int list" where
  "appended_samples self [] a = []"
| "appended_samples self (ev # evs) a =
     (if is_monitoring (deref a self) = Some True
      then (case pass_sample self ev a of None \<Rightarrow> [] | Some s \<Rightarrow> [s])
             @ appended_samples self evs (monitor_iteration self ev a)
      else [])"

text \<open>
  The first block of a pass takes one of its two branches or none. \<open>transitions\<close> lists the
  branches that the passes of a run take: \<open>Went_down\<close> for the branch that marks the device down
  and opens an interval, \<open>Came_up\<close> for the branch that marks it up and closes the interval.
\<close>

datatype transition = Went_down datetime | Came_up datetime

definition pass_transition :: "ref \<Rightarrow> probe \<times> datetime \<Rightarrow> NetMonitorApp \<Rightarrow> transition option" where
  "pass_transition self ev a =
     (case fst ev of
        Probe_raises e \<Rightarrow> None
      | Probe_out out \<Rightarrow>
          if lost_in out \<and> \<not> is_down (deref a self) then Some (Went_down (snd ev))
          else if \<not> lost_in out \<and> is_down (deref a self) then Some (Came_up (snd ev))
          else None)"

fun transitions :: "ref \<Rightarrow> (probe \<times> datetime) list \<Rightarrow> NetMonitorApp \<Rightarrow> transition list" where
  "transitions self [] a = []"
| "transitions self (ev # evs) a =
     (if is_monitoring (deref a self) = Some True
      then (case pass_transition self ev a of None \<Rightarrow> [] | Some t \<Rightarrow> [t])
             @ transitions self evs (monitor_iteration self ev a)
      else [])"

fun alternating :: "bool \<Rightarrow> transition list \<Rightarrow> bool" where
  \<comment> \<open>the flag tells whether an interval is open; an open needs none, a close needs one\<close>
  "alternating opn [] = True"
| "alternating opn (Went_down t # ts) = (\<not> opn \<and> alternating True ts)"
| "alternating opn (Came_up t # ts) = (opn \<and> alternating False ts)"

definition before :: "datetime option \<times> datetime \<Rightarrow> datetime option \<times> datetime \<Rightarrow> bool" where
  \<comment> \<open>the first interval starts before the second and has ended when the second starts\<close>
  "before i j = (case (fst i, fst j) of (Some s, Some s') \<Rightarrow> s < s' \<and> snd i \<le> s' | _ \<Rightarrow> False)"

definition ordered_intervals :: "(datetime option \<times> datetime) list \<Rightarrow> bool" where
  "ordered_intervals l = sorted_wrt before l"

definition open_intervals :: "DeviceMonitor \<Rightarrow> datetime list" where
  \<comment> \<open>the interval that \<open>get_downtime_summary\<close> reports as going on\<close>
  "open_intervals m =
     (case current_downtime_start m of
        Some d \<Rightarrow> if is_down m then [d] else []
      | None \<Rightarrow> [])"

text \<open>
  The same order with the attribute \<open>downtime_summary\<close> present, for a clock that moves
  forward: every recorded interval has a start, starts before it ends and ends before the
  bound, which is the start of the open interval when the device is down and the clock
  otherwise.
\<close>

definition interval_ok :: "datetime \<Rightarrow> datetime option \<times> datetime \<Rightarrow> bool" where
  "interval_ok bound i = (case fst i of None \<Rightarrow> False | Some s \<Rightarrow> s < snd i \<and> snd i < bound)"

definition downtime_inv :: "datetime \<Rightarrow> DeviceMonitor \<Rightarrow> bool" where
  "downtime_inv t m =
     (ordered_intervals (recorded_intervals m) \<and>
      (if is_down m
       then (case current_downtime_start m of
               None \<Rightarrow> False
             | Some s \<Rightarrow> s < t \<and> list_all (interval_ok s) (recorded_intervals m))
       else list_all (interval_ok t) (recorded_intervals m)))"

text \<open>
  What the loss label is to show for a buffer, in the words of the specification: the
  percentage \<open>(1 - sum/len) * 100\<close> with two decimals, and \<open>0%\<close> for the empty buffer. The
  arithmetic is that of the source, binary64 at each operation.
\<close>

definition shown_loss :: "int list \<Rightarrow> loss_text" where
  "shown_loss buf =
     (if buf = [] then Loss_zero
      else Loss_pct (format_2f (binary64 (binary64
             (1 - binary64 (of_int (sum_list buf) / of_int (int (length buf)))) * 100))))"

section \<open>The states of the application\<close>

text \<open>
  What happens to the application is a sequence of actions: a pass of the loop of \<open>_monitor\<close>
  in one of the monitor threads, or one of the handlers of the window. An action is taken as a
  whole. A pass is the pass of a monitor object for which a thread was started; a thread that
  has tested \<open>is_monitoring\<close> finishes its pass after the monitor is stopped or deleted, so the
  flag is not asked for. Where a handler raises, the state is the one at the raise.
\<close>

datatype action =
    Pass ref probe datetime
  | Start_monitoring datetime datetime datetime "exn option" datetime
  | Stop_monitoring
  | Reset_all
  | Add_device "string option" "string option" "exn option"
  | Delete_devices "ref \<Rightarrow> bool" bool "exn option"
  | Rename_device ref "string option" "exn option"
  | Save_log bool datetime "exn option" datetime
  | Clear_log
  | Auto_save datetime datetime "exn option" datetime
  | Update_timer datetime
  | On_close
  | Save_json "exn option"
  | Show_summary

fun perform :: "action \<Rightarrow> NetMonitorApp \<Rightarrow> NetMonitorApp" where
  "perform (Pass self p ts) a =
     (if self < length (objects a) \<and> self \<in> set (threads a)
      then monitor_iteration self (p, ts) a else a)"
| "perform (Start_monitoring started now ts io finished) a =
     app_start_monitoring started now ts io finished a"
| "perform Stop_monitoring a = app_stop_monitoring a"
| "perform Reset_all a = reset_all a"
| "perform (Add_device ip_answer name_answer io) a =
     (case add_device ip_answer name_answer io a of Inl x \<Rightarrow> snd x | Inr a' \<Rightarrow> a')"
| "perform (Delete_devices selected confirmed io) a =
     (case delete_devices selected confirmed io a of Inl x \<Rightarrow> snd x | Inr a' \<Rightarrow> a')"
| "perform (Rename_device self answer io) a =
     (if self < length (objects a)
      then (case rename_device self answer io a of Inl x \<Rightarrow> snd x | Inr a' \<Rightarrow> a')
      else a)"
| "perform (Save_log notify ts io finished) a = snd (save_log notify ts io finished a)"
| "perform Clear_log a = clear_log a"
| "perform (Auto_save now ts io finished) a = auto_save_job now ts io finished a"
| "perform (Update_timer now) a = update_timer now a"
| "perform On_close a = cancel_timer a"
| "perform (Save_json io) a = save_json io a"
| "perform Show_summary a = (case show_summary_upd a of Inl e \<Rightarrow> a | Inr a' \<Rightarrow> a')"

fun execute :: "action list \<Rightarrow> NetMonitorApp \<Rightarrow> NetMonitorApp" where
  "execute [] a = a"
| "execute (act # acts) a = execute acts (perform act a)"

text \<open>
  The branches that the passes of one device take in a sequence of actions, and the times that
  these passes read from the clock.
\<close>

definition action_transition :: "ref \<Rightarrow> action \<Rightarrow> NetMonitorApp \<Rightarrow> transition list" where
  "action_transition r act a =
     (case act of
        Pass self p ts \<Rightarrow>
          if self = r \<and> r < length (objects a) \<and> r \<in> set (threads a)
          then (case pass_transition r (p, ts) a of None \<Rightarrow> [] | Some t \<Rightarrow> [t])
          else []
      | _ \<Rightarrow> [])"

fun device_transitions :: "ref \<Rightarrow> action list \<Rightarrow> NetMonitorApp \<Rightarrow> transition list" where
  "device_transitions r [] a = []"
| "device_transitions r (act # acts) a =
     action_transition r act a @ device_transitions r acts (perform act a)"





text \<open>
  \<open>downtime_kept a a'\<close>: every object of \<open>a\<close> is an object of \<open>a'\<close> with the same \<open>is_down\<close>,
  \<open>current_downtime_start\<close> and \<open>downtime_summary\<close>.
\<close>

definition downtime_kept :: "NetMonitorApp \<Rightarrow> NetMonitorApp \<Rightarrow> bool" where
  "downtime_kept a a' =
     (length (objects a) \<le> length (objects a')
      \<and> (\<forall>r<length (objects a).
            is_down (deref a' r) = is_down (deref a r)
            \<and> current_downtime_start (deref a' r) = current_downtime_start (deref a r)
            \<and> downtime_summary (deref a' r) = downtime_summary (deref a r)))"

definition monitor_ok :: "DeviceMonitor \<Rightarrow> bool" where
  "monitor_ok m =
     (downtime_summary m = None
      \<and> (is_down m \<longrightarrow> current_downtime_start m \<noteq> None)
      \<and> packet_loss_label m = shown_loss (availability m)
      \<and> length (availability m) \<le> 720
      \<and> set (availability m) \<subseteq> {0, 1})"

definition app_ok :: "NetMonitorApp \<Rightarrow> bool" where
  "app_ok a =
     (list_all monitor_ok (objects a)
      \<and> list_all (\<lambda>r. r < length (objects a)) (monitors a)
      \<and> distinct (monitors a))"

section \<open>Appending to the shared log under the lock\<close>

text \<open>
  \<open>with self.app.log_lock: self.app.full_log.extend(entry)\<close>, run by several threads. A thread
  is an appender: the batches its passes have yet to append and, while it is inside the
  \<open>with\<close>, the batch it is appending with the number of items that \<open>extend\<close> has copied. A step
  of thread \<open>i\<close> acquires the free lock, or copies one item, or releases the lock; a thread that
  waits for the lock, or has nothing left, does not move. A schedule is the list of the
  threads that take the steps. \<open>extend\<close> is taken apart into its items, so that the schedules
  are all those that the lock allows, whatever the interpreter adds.
\<close>

record 'a appender =
  pending :: "'a list list"
  current :: "('a list \<times> nat) option"

record 'a log_state =
  shared_log :: "'a list"
  lock_owner :: "nat option"
  appenders :: "'a appender list"

definition step :: "nat \<Rightarrow> 'a log_state \<Rightarrow> 'a log_state" where
  "step i s =
     (if length (appenders s) \<le> i then s
      else
        (let w = appenders s ! i in
         case current w of
           None \<Rightarrow>
             (case pending w of
                [] \<Rightarrow> s
              | b # bs \<Rightarrow>
                  if lock_owner s = None
                  then s\<lparr>lock_owner := Some i,
                         appenders := (appenders s)[i := w\<lparr>pending := bs, current := Some (b, 0)\<rparr>]\<rparr>
                  else s)
         | Some (b, k) \<Rightarrow>
             if k < length b
             then s\<lparr>shared_log := shared_log s @ [b ! k],
                    appenders := (appenders s)[i := w\<lparr>current := Some (b, Suc k)\<rparr>]\<rparr>
             else s\<lparr>lock_owner := None,
                    appenders := (appenders s)[i := w\<lparr>current := None\<rparr>]\<rparr>))"

definition run :: "nat list \<Rightarrow> 'a log_state \<Rightarrow> 'a log_state" where
  "run schedule s = foldl (\<lambda>s i. step i s) s schedule"

definition idle :: "'a log_state \<Rightarrow> bool" where
  \<comment> \<open>no thread is inside the \<open>with\<close> and the lock is free\<close>
  "idle s = (lock_owner s = None \<and> list_all (\<lambda>w. current w = None) (appenders s))"

definition all_appended :: "'a log_state \<Rightarrow> bool" where
  "all_appended s = list_all (\<lambda>w. current w = None \<and> pending w = []) (appenders s)"

definition inflight :: "'a log_state \<Rightarrow> 'a list" where
  \<comment> \<open>the items of the batch of the thread that holds the lock, as far as copied\<close>
  "inflight s =
     (case lock_owner s of
        None \<Rightarrow> []
      | Some i \<Rightarrow> (case current (appenders s ! i) of None \<Rightarrow> [] | Some (b, k) \<Rightarrow> take k b))"

definition outstanding :: "'a log_state \<Rightarrow> 'a list list" where
  \<comment> \<open>the batches that are not in the log as a whole yet\<close>
  "outstanding s =
     concat (map (\<lambda>w. (case current w of None \<Rightarrow> [] | Some (b, k) \<Rightarrow> [b]) @ pending w)
                 (appenders s))"

definition disciplined :: "'a log_state \<Rightarrow> bool" where
  \<comment> \<open>a thread is inside the \<open>with\<close> exactly when it holds the lock\<close>
  "disciplined s =
     ((\<forall>i < length (appenders s). current (appenders s ! i) \<noteq> None \<longrightarrow> lock_owner s = Some i)
      \<and> (\<forall>i. lock_owner s = Some i \<longrightarrow> i < length (appenders s) \<and> current (appenders s ! i) \<noteq> None)
      \<and> (\<forall>i < length (appenders s). \<forall>b k. current (appenders s ! i) = Some (b, k) \<longrightarrow> k \<le> length b))"

definition two_devices :: "log_entry log_state" where
  \<comment> \<open>two devices, each with the batch of one pass to append\<close>
  "two_devices =
     \<lparr>shared_log = [], lock_owner = None,
      appenders =
        [\<lparr>pending = [[(Stamp 10, None), (Exchange ''router'' ''10.0.0.1'', None), (Reply_received, None)]],
          current = None\<rparr>,
         \<lparr>pending = [[(Stamp 11, None), (Exchange ''printer'' ''10.0.0.2'', None), (No_reply, Some ''error'')]],
          current = None\<rparr>]\<rparr>"

section \<open>Concrete states and inputs\<close>

definition with_attribute :: NetMonitorApp where
  \<comment> \<open>\<open>one_device\<close> below, its monitor given an empty \<open>downtime_summary\<close>\<close>
  "with_attribute =
     \<lparr>objects =
        [\<lparr>ip = ''10.0.0.1'', name = ''router'', availability = [], is_down = False,
          current_downtime_start = None, downtime_summary = Some [], is_monitoring = Some True,
          packet_loss_label = Loss_zero, frame = 0\<rparr>],
      monitors = [0], row_frames = [1], full_log = [], auto_save_timer = Some 0,
      start_time = Some 0, timer_running = True, last_save_time = Some 0,
      settings = Some [(''10.0.0.1'', ''router'')], timer_label = ''0:00:00:00'',
      summary_view = None, threads = [0], error_log = [], log_files = [],
      settings_file = None, timers = [True]\<rparr>"

definition reply :: probe where
  "reply = Probe_out ''Reply from 10.0.0.1: bytes=32 time<1ms TTL=64''"

definition timeout :: probe where
  "timeout = Probe_out ''Request timed out. Lost = 1 (100% loss)''"

definition one_device :: NetMonitorApp where
  \<comment> \<open>the application loaded with one device, after Start at time 0\<close>
  "one_device = app_start_monitoring 0 1 2 None 3 (NetMonitorApp_init (Some [(''10.0.0.1'', ''router'')]))"

lemma lost_in_reply: "\<not> lost_in ''Reply from 10.0.0.1: bytes=32 time<1ms TTL=64''"
  by (simp add: lost_in_def loss_en_def loss_ru_def)

lemma lost_in_timeout: "lost_in ''Request timed out. Lost = 1 (100% loss)''"
  by (simp add: lost_in_def loss_en_def loss_ru_def)

section \<open>The store and the blocks of a pass\<close>

lemma deref_store_same [simp]: "r < length (objects a) \<Longrightarrow> deref (store r m a) r = m"
  by (simp add: deref_def store_def)

lemma deref_store_other [simp]: "r \<noteq> r' \<Longrightarrow> deref (store r m a) r' = deref a r'"
  by (simp add: deref_def store_def)

lemma store_fields [simp]:
  "length (objects (store r m a)) = length (objects a)"
  "monitors (store r m a) = monitors a"
  "full_log (store r m a) = full_log a"
  "error_log (store r m a) = error_log a"
  "threads (store r m a) = threads a"
  "timer_running (store r m a) = timer_running a"
  "start_time (store r m a) = start_time a"
  "last_save_time (store r m a) = last_save_time a"
  "settings (store r m a) = settings a"
  "log_files (store r m a) = log_files a"
  "timers (store r m a) = timers a"
  "auto_save_timer (store r m a) = auto_save_timer a"
  by (simp_all add: store_def)

lemma extend_log_fields [simp]:
  "objects (extend_log es a) = objects a"
  "deref (extend_log es a) r = deref a r"
  "monitors (extend_log es a) = monitors a"
  "full_log (extend_log es a) = full_log a @ es"
  "error_log (extend_log es a) = error_log a"
  by (simp_all add: extend_log_def deref_def)

lemma log_error_fields [simp]:
  "objects (log_error msg a) = objects a"
  "deref (log_error msg a) r = deref a r"
  "monitors (log_error msg a) = monitors a"
  "full_log (log_error msg a) = full_log a"
  "error_log (log_error msg a) = error_log a @ [msg]"
  by (simp_all add: log_error_def deref_def)

lemma index_of_Some: "index_of x xs = Some i \<Longrightarrow> i < length xs \<and> xs ! i = x"
  by (induction xs arbitrary: i) (auto split: if_splits)

lemma index_of_None: "index_of x xs = None \<longleftrightarrow> x \<notin> set xs"
  by (induction xs) auto

lemma push_sample_nonempty [simp]: "push_sample buf s \<noteq> []"
  by (cases buf) (auto simp: push_sample_def Let_def)

lemma loss_pct_nonempty: "buf \<noteq> [] \<Longrightarrow> \<exists>x. loss_pct buf = Inr x"
  by (simp add: loss_pct_def truediv_def)

lemma record_sample_ok:
  assumes "self < length (objects a)"
  shows "\<exists>x. loss_pct (push_sample (availability (deref a self)) s) = Inr x \<and>
     record_sample self s a = Inr (store self ((deref a self)\<lparr>availability := push_sample (availability (deref a self)) s,
        packet_loss_label := Loss_pct (format_2f x)\<rparr>) a)"
proof -
  obtain x where x: "loss_pct (push_sample (availability (deref a self)) s) = Inr x"
    using loss_pct_nonempty [OF push_sample_nonempty] by blast
  show ?thesis
    using assms x by (auto simp: record_sample_def Let_def store_def deref_def)
qed


lemma iteration_raises:
  "monitor_iteration self (Probe_raises e, ts) a = log_error (Monitor_failed (ip (deref a self)) e) a"
  by (simp add: monitor_iteration_def monitor_body_def)

lemma transition_open:
  assumes "lost" "\<not> is_down (deref a self)"
  shows "downtime_transition self lost ts a =
     Inr (store self ((deref a self)\<lparr>is_down := True, current_downtime_start := Some ts\<rparr>) a)"
  using assms by (simp add: downtime_transition_def)

lemma transition_stay_down:
  assumes "lost" "is_down (deref a self)"
  shows "downtime_transition self lost ts a = Inr a"
  using assms by (simp add: downtime_transition_def)

lemma transition_stay_up:
  assumes "\<not> lost" "\<not> is_down (deref a self)"
  shows "downtime_transition self lost ts a = Inr a"
  using assms by (simp add: downtime_transition_def)

lemma transition_close_unlisted:
  assumes "\<not> lost" "is_down (deref a self)" "self \<notin> set (monitors a)"
  shows "downtime_transition self lost ts a =
     Inl (ValueError, store self ((deref a self)\<lparr>is_down := False\<rparr>) a)"
  using assms by (simp add: downtime_transition_def Let_def index_of_None [THEN iffD2])

lemma transition_close_no_attribute:
  assumes "\<not> lost" "is_down (deref a self)" "self \<in> set (monitors a)"
    "self < length (objects a)" "downtime_summary (deref a self) = None"
  shows "downtime_transition self lost ts a =
     Inl (AttributeError, store self ((deref a self)\<lparr>is_down := False\<rparr>) a)"
proof -
  obtain i where i: "index_of self (monitors a) = Some i"
    using assms(3) index_of_None [of self "monitors a"] by (cases "index_of self (monitors a)") auto
  then have "monitors a ! i = self" using index_of_Some by fastforce
  with assms i show ?thesis
    by (simp add: downtime_transition_def Let_def)
qed

lemma transition_close_recorded:
  assumes "\<not> lost" "is_down (deref a self)" "self \<in> set (monitors a)"
    "self < length (objects a)" "downtime_summary (deref a self) = Some l"
  shows "downtime_transition self lost ts a =
     Inr (store self ((deref a self)\<lparr>is_down := False,
            downtime_summary := Some (l @ [(current_downtime_start (deref a self), ts)]),
            current_downtime_start := None\<rparr>) a)"
proof -
  obtain i where i: "index_of self (monitors a) = Some i"
    using assms(3) index_of_None [of self "monitors a"] by (cases "index_of self (monitors a)") auto
  then have "monitors a ! i = self" using index_of_Some by fastforce
  with assms i show ?thesis
    by (simp add: downtime_transition_def Let_def store_def deref_def)
qed


lemma one_device_eq:
  "one_device = \<lparr>objects =
    [\<lparr>ip = ''10.0.0.1'', name = ''router'', availability = [],
        is_down = False, current_downtime_start = None,
        downtime_summary = None, is_monitoring = Some True,
        packet_loss_label = Loss_zero, frame = 0\<rparr>],
    monitors = [0], row_frames = [1], full_log = [],
    auto_save_timer = Some 0, start_time = Some 0, timer_running = True,
    last_save_time = Some 0, settings = Some [(''10.0.0.1'', ''router'')],
    timer_label = ''0:00:00:00'', summary_view = None, threads = [0],
    error_log = [], log_files = [], settings_file = None, timers = [True]\<rparr>"
  by (simp add: one_device_def NetMonitorApp_init_def app_start_monitoring_def auto_save_job_def
      DeviceMonitor_init_def TILE_COLUMNS_def start_monitoring_def store_def deref_def
      AUTO_SAVE_INTERVAL_def Let_def)


lemma body_out:
  "monitor_body self (Probe_out out) ts a =
     (case downtime_transition self (lost_in out) ts a of
        Inl x \<Rightarrow> Inl x
      | Inr a1 \<Rightarrow> record_sample self (if lost_in out then 0 else 1)
                    (extend_log (entry self (lost_in out) ts a1) a1))"
  by (simp add: monitor_body_def Let_def)

lemma iteration_completes:
  assumes "downtime_transition self (lost_in out) ts a = Inr a1" "self < length (objects a1)"
  shows "\<exists>x. loss_pct (push_sample (availability (deref a1 self)) (if lost_in out then 0 else 1)) = Inr x \<and>
     monitor_iteration self (Probe_out out, ts) a =
       store self ((deref a1 self)
          \<lparr>availability := push_sample (availability (deref a1 self)) (if lost_in out then 0 else 1),
           packet_loss_label := Loss_pct (format_2f x)\<rparr>)
         (extend_log (entry self (lost_in out) ts a1) a1)"
proof -
  let ?a2 = "extend_log (entry self (lost_in out) ts a1) a1"
  have v: "self < length (objects ?a2)" using assms(2) by simp
  from record_sample_ok [OF v, of "if lost_in out then 0 else 1"]
  show ?thesis
    using assms(1) by (auto simp: monitor_iteration_def body_out)
qed

lemma iteration_interrupted:
  assumes "downtime_transition self (lost_in out) ts a = Inl (e, a1)"
  shows "monitor_iteration self (Probe_out out, ts) a = log_error (Monitor_failed (ip (deref a1 self)) e) a1"
  using assms by (simp add: monitor_iteration_def body_out)



lemma store_store [simp]: "store r m (store r m' a) = store r m a"
  by (simp add: store_def)

lemma entry_store [simp]:
  "name m' = name (deref a self) \<Longrightarrow> ip m' = ip (deref a self) \<Longrightarrow> self < length (objects a) \<Longrightarrow>
   entry self lost ts (store self m' a) = entry self lost ts a"
  by (simp add: entry_def)

lemma extend_log_store: "extend_log es (store r m a) = store r m (extend_log es a)"
  by (simp add: extend_log_def store_def)

lemma iteration_completed:
  assumes "self < length (objects a)"
    and "lost_in out \<or> \<not> is_down (deref a self)
         \<or> (self \<in> set (monitors a) \<and> downtime_summary (deref a self) \<noteq> None)"
  shows "\<exists>x. loss_pct (push_sample (availability (deref a self)) (if lost_in out then 0 else 1)) = Inr x \<and>
     monitor_iteration self (Probe_out out, ts) a =
       store self
         ((if lost_in out \<and> \<not> is_down (deref a self)
           then (deref a self)\<lparr>is_down := True, current_downtime_start := Some ts\<rparr>
           else if \<not> lost_in out \<and> is_down (deref a self)
           then (deref a self)\<lparr>is_down := False,
                  downtime_summary := Some (the (downtime_summary (deref a self)) @
                                             [(current_downtime_start (deref a self), ts)]),
                  current_downtime_start := None\<rparr>
           else deref a self)
          \<lparr>availability := push_sample (availability (deref a self)) (if lost_in out then 0 else 1),
           packet_loss_label := Loss_pct (format_2f x)\<rparr>)
         (extend_log (entry self (lost_in out) ts a) a)"
proof -
  let ?m = "deref a self"
  consider (op) "lost_in out" "\<not> is_down ?m"
    | (down) "lost_in out" "is_down ?m"
    | (up) "\<not> lost_in out" "\<not> is_down ?m"
    | (rec) l where "\<not> lost_in out" "is_down ?m" "self \<in> set (monitors a)" "downtime_summary ?m = Some l"
    using assms(2) by (cases "downtime_summary ?m") auto
  then show ?thesis
  proof cases
    case op
    from iteration_completes [OF transition_open [OF op, of ts]] assms(1) op
    show ?thesis by (simp add: extend_log_store)
  next
    case down
    from iteration_completes [OF transition_stay_down [OF down, of ts]] assms(1) down
    show ?thesis by (simp add: extend_log_store)
  next
    case up
    from iteration_completes [OF transition_stay_up [OF up, of ts]] assms(1) up
    show ?thesis by (simp add: extend_log_store)
  next
    case rec
    from iteration_completes [OF transition_close_recorded [OF rec(1-3) assms(1) rec(4), of ts]] assms(1) rec
    show ?thesis by (simp add: extend_log_store)
  qed
qed

lemma iteration_close_fails:
  assumes "self < length (objects a)" "\<not> lost_in out" "is_down (deref a self)"
    and "self \<notin> set (monitors a) \<or> downtime_summary (deref a self) = None"
  shows "monitor_iteration self (Probe_out out, ts) a =
     log_error (Monitor_failed (ip (deref a self))
                  (if self \<in> set (monitors a) then AttributeError else ValueError))
       (store self ((deref a self)\<lparr>is_down := False\<rparr>) a)"
proof (cases "self \<in> set (monitors a)")
  case True
  with assms(4) have n: "downtime_summary (deref a self) = None" by simp
  from iteration_interrupted [OF transition_close_no_attribute [OF assms(2,3) True assms(1) n, of ts]]
  show ?thesis using True assms(1) by simp
next
  case False
  from iteration_interrupted [OF transition_close_unlisted [OF assms(2,3) False, of ts]]
  show ?thesis using False assms(1) by simp
qed

lemma iteration_frame:
  assumes "self < length (objects a)"
  shows "length (objects (monitor_iteration self ev a)) = length (objects a)"
    and "monitors (monitor_iteration self ev a) = monitors a"
    and "is_monitoring (deref (monitor_iteration self ev a) r) = is_monitoring (deref a r)"
    and "r \<noteq> self \<Longrightarrow> deref (monitor_iteration self ev a) r = deref a r"
    and "name (deref (monitor_iteration self ev a) r) = name (deref a r)"
    and "ip (deref (monitor_iteration self ev a) r) = ip (deref a r)"
proof -
  obtain p ts where ev: "ev = (p, ts)" by (cases ev)
  have "length (objects (monitor_iteration self ev a)) = length (objects a)
      \<and> monitors (monitor_iteration self ev a) = monitors a
      \<and> is_monitoring (deref (monitor_iteration self ev a) r) = is_monitoring (deref a r)
      \<and> (r \<noteq> self \<longrightarrow> deref (monitor_iteration self ev a) r = deref a r)
      \<and> name (deref (monitor_iteration self ev a) r) = name (deref a r)
      \<and> ip (deref (monitor_iteration self ev a) r) = ip (deref a r)"
  proof (cases p)
    case (Probe_raises e)
    then show ?thesis using ev by (simp add: iteration_raises)
  next
    case (Probe_out out)
    show ?thesis
    proof (cases "lost_in out \<or> \<not> is_down (deref a self)
         \<or> (self \<in> set (monitors a) \<and> downtime_summary (deref a self) \<noteq> None)")
      case True
      from iteration_completed [OF assms True, of ts] obtain x where
        "monitor_iteration self (Probe_out out, ts) a =
       store self
         ((if lost_in out \<and> \<not> is_down (deref a self)
           then (deref a self)\<lparr>is_down := True, current_downtime_start := Some ts\<rparr>
           else if \<not> lost_in out \<and> is_down (deref a self)
           then (deref a self)\<lparr>is_down := False,
                  downtime_summary := Some (the (downtime_summary (deref a self)) @
                                             [(current_downtime_start (deref a self), ts)]),
                  current_downtime_start := None\<rparr>
           else deref a self)
          \<lparr>availability := push_sample (availability (deref a self)) (if lost_in out then 0 else 1),
           packet_loss_label := Loss_pct (format_2f x)\<rparr>)
         (extend_log (entry self (lost_in out) ts a) a)" by blast
      then show ?thesis using ev Probe_out assms by (cases "r = self") simp_all
    next
      case False
      then have "\<not> lost_in out" "is_down (deref a self)"
        "self \<notin> set (monitors a) \<or> downtime_summary (deref a self) = None" by auto
      from iteration_close_fails [OF assms this, of ts]
      show ?thesis using ev Probe_out assms by (cases "r = self") simp_all
    qed
  qed
  then show "length (objects (monitor_iteration self ev a)) = length (objects a)"
    and "monitors (monitor_iteration self ev a) = monitors a"
    and "is_monitoring (deref (monitor_iteration self ev a) r) = is_monitoring (deref a r)"
    and "r \<noteq> self \<Longrightarrow> deref (monitor_iteration self ev a) r = deref a r"
    and "name (deref (monitor_iteration self ev a) r) = name (deref a r)"
    and "ip (deref (monitor_iteration self ev a) r) = ip (deref a r)"
    by simp_all
qed


lemma completed_fields:
  assumes "self < length (objects a)"
    and "lost_in out \<or> \<not> is_down (deref a self)
         \<or> (self \<in> set (monitors a) \<and> downtime_summary (deref a self) \<noteq> None)"
  shows "availability (deref (monitor_iteration self (Probe_out out, ts) a) self) =
           push_sample (availability (deref a self)) (if lost_in out then 0 else 1)"
    and "is_down (deref (monitor_iteration self (Probe_out out, ts) a) self) = lost_in out"
    and "current_downtime_start (deref (monitor_iteration self (Probe_out out, ts) a) self) =
           (if lost_in out \<and> \<not> is_down (deref a self) then Some ts
            else if \<not> lost_in out \<and> is_down (deref a self) then None
            else current_downtime_start (deref a self))"
    and "downtime_summary (deref (monitor_iteration self (Probe_out out, ts) a) self) =
           (if \<not> lost_in out \<and> is_down (deref a self)
            then Some (the (downtime_summary (deref a self)) @ [(current_downtime_start (deref a self), ts)])
            else downtime_summary (deref a self))"
    and "error_log (monitor_iteration self (Probe_out out, ts) a) = error_log a"
    and "full_log (monitor_iteration self (Probe_out out, ts) a) = full_log a @ entry self (lost_in out) ts a"
    and "loss_pct (availability (deref (monitor_iteration self (Probe_out out, ts) a) self)) =
           Inr x \<Longrightarrow> packet_loss_label (deref (monitor_iteration self (Probe_out out, ts) a) self) =
           Loss_pct (format_2f x)"
  using iteration_completed [OF assms, of ts] assms(1) by (auto split: if_splits)

lemma close_fails_fields:
  assumes "self < length (objects a)" "\<not> lost_in out" "is_down (deref a self)"
    and "self \<notin> set (monitors a) \<or> downtime_summary (deref a self) = None"
  shows "deref (monitor_iteration self (Probe_out out, ts) a) self = (deref a self)\<lparr>is_down := False\<rparr>"
    and "error_log (monitor_iteration self (Probe_out out, ts) a) =
           error_log a @ [Monitor_failed (ip (deref a self))
                            (if self \<in> set (monitors a) then AttributeError else ValueError)]"
    and "full_log (monitor_iteration self (Probe_out out, ts) a) = full_log a"
  using iteration_close_fails [OF assms, of ts] assms(1) by auto


lemma outage_is_not_recorded:
  fixes t1 t2 t3 t4 :: datetime
  assumes v: "self < length (objects a)" and mon: "is_monitoring (deref a self) = Some True"
    and up: "\<not> is_down (deref a self)" and nosum: "downtime_summary (deref a self) = None"
    and o: "\<not> lost_in o1" "lost_in o2" "lost_in o3" "\<not> lost_in o4"
  defines "a' \<equiv> monitor_loop self [(Probe_out o1, t1), (Probe_out o2, t2), (Probe_out o3, t3), (Probe_out o4, t4)] a"
  shows "downtime_summary (deref a' self) = None"
    and "is_down (deref a' self) = False"
    and "current_downtime_start (deref a' self) = Some t2"
    and "availability (deref a' self) = push_sample (push_sample (push_sample (availability (deref a self)) 1) 0) 0"
    and "error_log a' = error_log a @ [Monitor_failed (ip (deref a self))
                            (if self \<in> set (monitors a) then AttributeError else ValueError)]"
proof -
  define a1 where "a1 = monitor_iteration self (Probe_out o1, t1) a"
  define a2 where "a2 = monitor_iteration self (Probe_out o2, t2) a1"
  define a3 where "a3 = monitor_iteration self (Probe_out o3, t3) a2"
  define a4 where "a4 = monitor_iteration self (Probe_out o4, t4) a3"
  have c1: "lost_in o1 \<or> \<not> is_down (deref a self)
         \<or> (self \<in> set (monitors a) \<and> downtime_summary (deref a self) \<noteq> None)"
    using up by simp
  note f1 = completed_fields [OF v c1, of t1, folded a1_def] iteration_frame [OF v, where ev = "(Probe_out o1, t1)", folded a1_def]
  have v1: "self < length (objects a1)" using f1 v by simp
  have c2: "lost_in o2 \<or> \<not> is_down (deref a1 self)
         \<or> (self \<in> set (monitors a1) \<and> downtime_summary (deref a1 self) \<noteq> None)"
    using o by simp
  note f2 = completed_fields [OF v1 c2, of t2, folded a2_def] iteration_frame [OF v1, where ev = "(Probe_out o2, t2)", folded a2_def]
  have v2: "self < length (objects a2)" using f2 v1 by simp
  have c3: "lost_in o3 \<or> \<not> is_down (deref a2 self)
         \<or> (self \<in> set (monitors a2) \<and> downtime_summary (deref a2 self) \<noteq> None)"
    using o by simp
  note f3 = completed_fields [OF v2 c3, of t3, folded a3_def] iteration_frame [OF v2, where ev = "(Probe_out o3, t3)", folded a3_def]
  have v3: "self < length (objects a3)" using f3 v2 by simp
  have d3: "is_down (deref a3 self)" "downtime_summary (deref a3 self) = None"
    "current_downtime_start (deref a3 self) = Some t2"
    using f1(1-4) f2(1-4) f3(1-4) o up nosum by simp_all
  have c4: "self \<notin> set (monitors a3) \<or> downtime_summary (deref a3 self) = None"
    using d3 by simp
  note f4 = close_fails_fields [OF v3 o(4) d3(1) c4, of t4, folded a4_def] iteration_frame [OF v3, where ev = "(Probe_out o4, t4)", folded a4_def]
  have loop: "a' = a4"
    using mon f1(10) f2(10) f3(10)
    by (simp add: a'_def a1_def a2_def a3_def a4_def)
  show "downtime_summary (deref a' self) = None"
    and "is_down (deref a' self) = False"
    and "current_downtime_start (deref a' self) = Some t2"
    and "availability (deref a' self) = push_sample (push_sample (push_sample (availability (deref a self)) 1) 0) 0"
    and "error_log a' = error_log a @ [Monitor_failed (ip (deref a self))
                            (if self \<in> set (monitors a) then AttributeError else ValueError)]"
    using loop f4(1,2) d3 f1 f2 f3 o up by simp_all
qed


lemma outage_is_recorded_with_attribute:
  fixes t1 t2 t3 t4 :: datetime
  assumes v: "self < length (objects a)" and mon: "is_monitoring (deref a self) = Some True"
    and up: "\<not> is_down (deref a self)" and sum: "downtime_summary (deref a self) = Some l"
    and listed: "self \<in> set (monitors a)"
    and o: "\<not> lost_in o1" "lost_in o2" "lost_in o3" "\<not> lost_in o4"
  defines "a' \<equiv> monitor_loop self [(Probe_out o1, t1), (Probe_out o2, t2), (Probe_out o3, t3), (Probe_out o4, t4)] a"
  shows "downtime_summary (deref a' self) = Some (l @ [(Some t2, t4)])"
    and "is_down (deref a' self) = False"
    and "current_downtime_start (deref a' self) = None"
proof -
  define a1 where "a1 = monitor_iteration self (Probe_out o1, t1) a"
  define a2 where "a2 = monitor_iteration self (Probe_out o2, t2) a1"
  define a3 where "a3 = monitor_iteration self (Probe_out o3, t3) a2"
  define a4 where "a4 = monitor_iteration self (Probe_out o4, t4) a3"
  have c1: "lost_in o1 \<or> \<not> is_down (deref a self)
         \<or> (self \<in> set (monitors a) \<and> downtime_summary (deref a self) \<noteq> None)"
    using up by simp
  note f1 = completed_fields [OF v c1, of t1, folded a1_def] iteration_frame [OF v, where ev = "(Probe_out o1, t1)", folded a1_def]
  have v1: "self < length (objects a1)" using f1 v by simp
  have c2: "lost_in o2 \<or> \<not> is_down (deref a1 self)
         \<or> (self \<in> set (monitors a1) \<and> downtime_summary (deref a1 self) \<noteq> None)"
    using o by simp
  note f2 = completed_fields [OF v1 c2, of t2, folded a2_def] iteration_frame [OF v1, where ev = "(Probe_out o2, t2)", folded a2_def]
  have v2: "self < length (objects a2)" using f2 v1 by simp
  have c3: "lost_in o3 \<or> \<not> is_down (deref a2 self)
         \<or> (self \<in> set (monitors a2) \<and> downtime_summary (deref a2 self) \<noteq> None)"
    using o by simp
  note f3 = completed_fields [OF v2 c3, of t3, folded a3_def] iteration_frame [OF v2, where ev = "(Probe_out o3, t3)", folded a3_def]
  have v3: "self < length (objects a3)" using f3 v2 by simp
  have d3: "is_down (deref a3 self)" "downtime_summary (deref a3 self) = Some l"
    "current_downtime_start (deref a3 self) = Some t2" "self \<in> set (monitors a3)"
    using f1 f2 f3 o up sum listed by simp_all
  have c4: "lost_in o4 \<or> \<not> is_down (deref a3 self)
         \<or> (self \<in> set (monitors a3) \<and> downtime_summary (deref a3 self) \<noteq> None)"
    using d3 by simp
  note f4 = completed_fields [OF v3 c4, of t4, folded a4_def]
  have loop: "a' = a4"
    using mon f1(10) f2(10) f3(10)
    by (simp add: a'_def a1_def a2_def a3_def a4_def)
  show "downtime_summary (deref a' self) = Some (l @ [(Some t2, t4)])"
    and "is_down (deref a' self) = False"
    and "current_downtime_start (deref a' self) = None"
    using loop f4(1-4) d3 o by simp_all
qed

lemma one_device_facts:
  "0 < length (objects one_device)" "is_monitoring (deref one_device 0) = Some True"
  "\<not> is_down (deref one_device 0)" "downtime_summary (deref one_device 0) = None"
  "0 \<in> set (monitors one_device)" "ip (deref one_device 0) = ''10.0.0.1''"
  "availability (deref one_device 0) = []" "error_log one_device = []"
  "name (deref one_device 0) = ''router''" "current_downtime_start (deref one_device 0) = None"
  by (simp_all add: one_device_eq deref_def)

section \<open>Success, fail, fail, success\<close>

text \<open>
  C1. A device probed success, fail, fail, success should have exactly one completed downtime
  interval, from the timestamp of the second probe to the timestamp of the fourth. The code
  does not get there: \<open>downtime_summary\<close> is never assigned, so the fourth pass raises
  AttributeError after it has cleared \<open>is_down\<close>, the \<open>except\<close> of the loop logs it, and
  nothing is recorded. The fourth sample is not appended either, and the summary of the device
  has no line. (On a monitor that has the attribute the same four probes record the interval, as
  \<open>outage_is_recorded_with_attribute\<close> shows.)
\<close>

theorem outage_of_two_probes_is_lost:
  "downtime_summary (deref (monitor_loop 0 [(reply, 10), (timeout, 20), (timeout, 30), (reply, 40)] one_device) 0) = None
   \<and> get_downtime_summary (deref (monitor_loop 0 [(reply, 10), (timeout, 20), (timeout, 30), (reply, 40)] one_device) 0) = Inr []
   \<and> availability (deref (monitor_loop 0 [(reply, 10), (timeout, 20), (timeout, 30), (reply, 40)] one_device) 0) = [1, 0, 0]
   \<and> error_log (monitor_loop 0 [(reply, 10), (timeout, 20), (timeout, 30), (reply, 40)] one_device) =
        [Monitor_failed ''10.0.0.1'' AttributeError]"
  using outage_is_not_recorded [OF one_device_facts(1-4) lost_in_reply lost_in_timeout lost_in_timeout lost_in_reply, of 10 20 30 40]
  by (simp add: one_device_facts reply_def timeout_def get_downtime_summary_def recorded_intervals_def
      push_sample_def)


section \<open>A probe that cannot be executed\<close>

text \<open>
  C8. In a pass of the monitor loop in which \<open>subprocess.run\<close> raises, the exception is caught
  and written to the error log, and that is the whole effect of the pass: no sample is appended
  to the availability buffer, the device is marked neither up nor down, nothing is added to
  the shared log, and the loop goes on with the passes that follow.
\<close>

theorem probe_failure_is_absorbed:
  assumes "is_monitoring (deref a self) = Some True"
  shows "monitor_loop self ((Probe_raises e, ts) # evs) a =
           monitor_loop self evs (a\<lparr>error_log := error_log a @ [Monitor_failed (ip (deref a self)) e]\<rparr>)
       \<and> monitor_iteration self (Probe_raises e, ts) a =
           a\<lparr>error_log := error_log a @ [Monitor_failed (ip (deref a self)) e]\<rparr>
       \<and> availability (deref (monitor_iteration self (Probe_raises e, ts) a) self) = availability (deref a self)
       \<and> is_down (deref (monitor_iteration self (Probe_raises e, ts) a) self) = is_down (deref a self)
       \<and> full_log (monitor_iteration self (Probe_raises e, ts) a) = full_log a"
  using assms by (simp add: iteration_raises log_error_def deref_def)

theorem probe_failure_is_absorbed_witness:
  "is_monitoring (deref one_device 0) = Some True
   \<and> monitor_loop 0 [(Probe_raises OSError, 10), (reply, 20)] one_device =
       monitor_loop 0 [(reply, 20)] (one_device\<lparr>error_log := [Monitor_failed ''10.0.0.1'' OSError]\<rparr>)
   \<and> availability (deref (monitor_iteration 0 (Probe_raises OSError, 10) one_device) 0) = []"
proof -
  have h: "is_monitoring (deref one_device 0) = Some True"
    by (simp add: one_device_eq deref_def)
  show ?thesis
    using h probe_failure_is_absorbed [OF h, of OSError 10 "[(reply, 20)]"]
    by (simp add: one_device_eq deref_def)
qed

section \<open>The availability buffer\<close>

lemma transition_raises_iff:
  assumes "self < length (objects a)"
  shows "isl (downtime_transition self lost ts a) \<longleftrightarrow>
     \<not> lost \<and> is_down (deref a self) \<and> (self \<notin> set (monitors a) \<or> downtime_summary (deref a self) = None)"
proof (cases "lost \<or> \<not> is_down (deref a self)")
  case True
  then show ?thesis
    by (auto simp: downtime_transition_def Let_def)
next
  case False
  then have c: "\<not> lost" "is_down (deref a self)" by auto
  show ?thesis
  proof (cases "self \<in> set (monitors a)")
    case False
    from transition_close_unlisted [OF c False, of ts] show ?thesis using c False by simp
  next
    case True
    show ?thesis
    proof (cases "downtime_summary (deref a self)")
      case None
      from transition_close_no_attribute [OF c True assms None, of ts] show ?thesis using c None by simp
    next
      case (Some l)
      from transition_close_recorded [OF c True assms Some, of ts] show ?thesis using c True Some by simp
    qed
  qed
qed

lemma pass_sample_out:
  assumes "self < length (objects a)"
  shows "pass_sample self (Probe_out out, ts) a =
     (if \<not> lost_in out \<and> is_down (deref a self) \<and>
         (self \<notin> set (monitors a) \<or> downtime_summary (deref a self) = None)
      then None else Some (if lost_in out then 0 else 1))"
  using transition_raises_iff [OF assms, of "lost_in out" ts]
  by (cases "downtime_transition self (lost_in out) ts a") (auto simp: pass_sample_def)

lemma iteration_availability:
  assumes "self < length (objects a)"
  shows "availability (deref (monitor_iteration self ev a) self) =
     (case pass_sample self ev a of
        None \<Rightarrow> availability (deref a self)
      | Some s \<Rightarrow> push_sample (availability (deref a self)) s)"
proof -
  obtain p ts where ev: "ev = (p, ts)" by (cases ev)
  show ?thesis
  proof (cases p)
    case (Probe_raises e)
    then show ?thesis using ev by (simp add: iteration_raises pass_sample_def)
  next
    case (Probe_out out)
    show ?thesis
    proof (cases "\<not> lost_in out \<and> is_down (deref a self) \<and>
         (self \<notin> set (monitors a) \<or> downtime_summary (deref a self) = None)")
      case True
      then have c: "\<not> lost_in out" "is_down (deref a self)"
         "self \<notin> set (monitors a) \<or> downtime_summary (deref a self) = None" by auto
      from close_fails_fields(1) [OF assms c, of ts] True
      show ?thesis using ev Probe_out by (simp add: pass_sample_out [OF assms])
    next
      case False
      then have c: "lost_in out \<or> \<not> is_down (deref a self)
         \<or> (self \<in> set (monitors a) \<and> downtime_summary (deref a self) \<noteq> None)" by auto
      from completed_fields(1) [OF assms c, of ts] False
      show ?thesis using ev Probe_out by (auto simp: pass_sample_out [OF assms])
    qed
  qed
qed

lemma push_sample_window:
  "push_sample (drop (length h - 720) h) s = drop (length (h @ [s]) - 720) (h @ [s])"
proof (cases "length h < 720")
  case True
  then show ?thesis by (simp add: push_sample_def)
next
  case False
  then have "drop (length h - 720) h \<noteq> []" by simp
  then have "tl (drop (length h - 720) h @ [s]) = drop (Suc (length h - 720)) h @ [s]"
    by (simp add: tl_drop drop_Suc)
  moreover have "Suc (length h - 720) = length h - 719" using False by simp
  ultimately show ?thesis using False by (simp add: push_sample_def)
qed

lemma loop_availability:
  assumes "self < length (objects a)" "availability (deref a self) = drop (length h - 720) h"
  shows "availability (deref (monitor_loop self evs a) self) =
           drop (length (h @ appended_samples self evs a) - 720) (h @ appended_samples self evs a)"
  using assms
proof (induction evs arbitrary: a h)
  case Nil
  then show ?case by simp
next
  case (Cons ev evs)
  show ?case
  proof (cases "is_monitoring (deref a self) = Some True")
    case False
    then show ?thesis using Cons.prems by simp
  next
    case True
    let ?a1 = "monitor_iteration self ev a"
    have v1: "self < length (objects ?a1)" using iteration_frame(1) [OF Cons.prems(1)] Cons.prems(1) by simp
    show ?thesis
    proof (cases "pass_sample self ev a")
      case None
      then have "availability (deref ?a1 self) = drop (length h - 720) h"
        using iteration_availability [OF Cons.prems(1), of ev] Cons.prems(2) by simp
      from Cons.IH [OF v1 this] show ?thesis using True None by simp
    next
      case (Some s)
      then have "availability (deref ?a1 self) = drop (length (h @ [s]) - 720) (h @ [s])"
        using iteration_availability [OF Cons.prems(1), of ev] Cons.prems(2) push_sample_window [of h s] by simp
      from Cons.IH [OF v1 this] show ?thesis using True Some by simp
    qed
  qed
qed

lemma buffer_is_last_720: "foldl push_sample [] xs = drop (length xs - 720) xs"
proof (induction xs rule: rev_induct)
  case Nil
  then show ?case by simp
next
  case (snoc x xs)
  then show ?case using push_sample_window [of xs x] by simp
qed

lemma first_reply_facts:
  "0 < length (objects (monitor_iteration 0 (reply, 10) one_device))"
  "is_monitoring (deref (monitor_iteration 0 (reply, 10) one_device) 0) = Some True"
  "\<not> is_down (deref (monitor_iteration 0 (reply, 10) one_device) 0)"
  "availability (deref (monitor_iteration 0 (reply, 10) one_device) 0) = [1]"
proof -
  have c: "lost_in ''Reply from 10.0.0.1: bytes=32 time<1ms TTL=64'' \<or> \<not> is_down (deref one_device 0)
         \<or> (0 \<in> set (monitors one_device) \<and> downtime_summary (deref one_device 0) \<noteq> None)"
    by (simp add: one_device_facts)
  note f = completed_fields [OF one_device_facts(1) c, of 10] iteration_frame [OF one_device_facts(1), where ev = "(reply, 10)"]
  show "0 < length (objects (monitor_iteration 0 (reply, 10) one_device))"
    "is_monitoring (deref (monitor_iteration 0 (reply, 10) one_device) 0) = Some True"
    "\<not> is_down (deref (monitor_iteration 0 (reply, 10) one_device) 0)"
    "availability (deref (monitor_iteration 0 (reply, 10) one_device) 0) = [1]"
    using f(1,2) f(8,10) one_device_facts(1)
    by (simp_all add: reply_def lost_in_reply one_device_facts push_sample_def)
qed

text \<open>
  What holds of the buffer whatever the probes of a run return: starting from an empty buffer,
  it never holds more than 720 samples, and it holds the last \<open>min n 720\<close> of the \<open>n\<close> samples
  that the passes of the loop have appended, in the order of their arrival: the oldest sample
  is the one that leaves. A pass that raises before line 407 appends none, whatever its probe
  returned.
\<close>

theorem availability_is_last_720:
  assumes "self < length (objects a)" "availability (deref a self) = []"
  shows "length (availability (deref (monitor_loop self evs a) self)) \<le> 720
       \<and> length (availability (deref (monitor_loop self evs a) self)) = min (length (appended_samples self evs a)) 720
       \<and> availability (deref (monitor_loop self evs a) self) =
           drop (length (appended_samples self evs a) - 720) (appended_samples self evs a)"
  using loop_availability [OF assms(1), of "[]" evs] assms(2) by (auto simp: min_def)


theorem availability_is_last_720_witness:
  "0 < length (objects one_device) \<and> availability (deref one_device 0) = []
   \<and> appended_samples 0 [(reply, 10), (timeout, 20)] one_device = [1, 0]
   \<and> availability (deref (monitor_loop 0 [(reply, 10), (timeout, 20)] one_device) 0) = [1, 0]"
proof -
  have s: "appended_samples 0 [(reply, 10), (timeout, 20)] one_device = [1, 0]"
    using first_reply_facts
    by (simp add: one_device_facts reply_def timeout_def lost_in_reply lost_in_timeout
        pass_sample_out [OF one_device_facts(1)]
        pass_sample_out [OF first_reply_facts(1) [unfolded reply_def]])
  have "availability (deref (monitor_loop 0 [(reply, 10), (timeout, 20)] one_device) 0) = [1, 0]"
    using availability_is_last_720 [OF one_device_facts(1) one_device_facts(7), of "[(reply, 10), (timeout, 20)]"]
    unfolding s by simp
  then show ?thesis
    using s one_device_facts(1,7) by blast
qed


text \<open>
  C2. The buffer should hold the last \<open>min n 720\<close> of the samples of the \<open>n\<close> probe results of
  a run, in the order of their arrival. It does not: the reply that ends an outage takes the
  closing branch of the first block, which raises AttributeError (\<open>downtime_summary\<close> is never
  assigned) before the pass reaches line 407, so the sample 1 of that probe is never appended.
  After a timeout and a reply the buffer is \<open>[0]\<close> and not \<open>[0, 1]\<close>, and the label shows 100.00;
  after three timeouts, each followed by a reply, the buffer is \<open>[0, 0, 0]\<close> and the label still
  shows 100.00, although half of the probes were answered. On a monitor that has the attribute
  the first two probes leave \<open>[0, 1]\<close> and 50.00. (\<open>closing_pass_never_completes\<close> below shows
  that no state of the application appends the sample of such a reply.)
\<close>

theorem reply_that_ends_an_outage_is_not_sampled:
  "availability (deref (monitor_loop 0 [(timeout, 10), (reply, 20)] one_device) 0) = [0]
   \<and> packet_loss_label (deref (monitor_loop 0 [(timeout, 10), (reply, 20)] one_device) 0)
       = Loss_pct ''100.00''
   \<and> error_log (monitor_loop 0 [(timeout, 10), (reply, 20)] one_device)
       = [Monitor_failed ''10.0.0.1'' AttributeError]
   \<and> availability (deref (monitor_loop 0 [(timeout, 10), (reply, 20), (timeout, 30), (reply, 40),
        (timeout, 50), (reply, 60)] one_device) 0) = [0, 0, 0]
   \<and> packet_loss_label (deref (monitor_loop 0 [(timeout, 10), (reply, 20), (timeout, 30),
        (reply, 40), (timeout, 50), (reply, 60)] one_device) 0) = Loss_pct ''100.00''
   \<and> availability (deref (monitor_loop 0 [(timeout, 10), (reply, 20)] with_attribute) 0) = [0, 1]
   \<and> packet_loss_label (deref (monitor_loop 0 [(timeout, 10), (reply, 20)] with_attribute) 0)
       = Loss_pct ''50.00''"
  by code_simp


section \<open>The downtime state machine\<close>

lemma pass_cases [case_names raised completed close_fails]:
  obtains (raised) e ts where "ev = (Probe_raises e, ts)"
  | (completed) out ts where "ev = (Probe_out out, ts)"
      "lost_in out \<or> \<not> is_down (deref a self)
         \<or> (self \<in> set (monitors a) \<and> downtime_summary (deref a self) \<noteq> None)"
  | (close_fails) out ts where "ev = (Probe_out out, ts)" "\<not> lost_in out" "is_down (deref a self)"
      "self \<notin> set (monitors a) \<or> downtime_summary (deref a self) = None"
proof (cases ev)
  case (Pair p ts)
  show ?thesis
  proof (cases p)
    case (Probe_raises e)
    with Pair raised show ?thesis by simp
  next
    case (Probe_out out)
    show ?thesis
    proof (cases "lost_in out \<or> \<not> is_down (deref a self)
         \<or> (self \<in> set (monitors a) \<and> downtime_summary (deref a self) \<noteq> None)")
      case True
      with Pair Probe_out completed show ?thesis by simp
    next
      case False
      with Pair Probe_out close_fails [of out ts] show ?thesis by simp
    qed
  qed
qed

lemma pass_transition_opens:
  "pass_transition self ev a = Some (Went_down t) \<Longrightarrow> \<not> is_down (deref a self)"
  by (auto simp: pass_transition_def split: probe.splits if_splits)

lemma pass_transition_closes:
  "pass_transition self ev a = Some (Came_up t) \<Longrightarrow> is_down (deref a self)"
  by (auto simp: pass_transition_def split: probe.splits if_splits)

lemma iteration_is_down:
  assumes "self < length (objects a)"
  shows "is_down (deref (monitor_iteration self ev a) self) =
     (case pass_transition self ev a of
        None \<Rightarrow> is_down (deref a self)
      | Some (Went_down t) \<Rightarrow> True
      | Some (Came_up t) \<Rightarrow> False)"
proof (cases rule: pass_cases [where ev = ev and a = a and self = self])
  case (raised e ts)
  then show ?thesis by (simp add: iteration_raises pass_transition_def)
next
  case (completed out ts)
  from completed_fields(2) [OF assms completed(2), of ts] show ?thesis
    using completed(1) by (auto simp: pass_transition_def)
next
  case (close_fails out ts)
  from close_fails_fields(1) [OF assms close_fails(2-4), of ts] show ?thesis
    using close_fails by (simp add: pass_transition_def)
qed

lemma iteration_no_attribute:
  assumes "self < length (objects a)" "downtime_summary (deref a self) = None"
  shows "downtime_summary (deref (monitor_iteration self ev a) self) = None"
proof (cases rule: pass_cases [where ev = ev and a = a and self = self])
  case (raised e ts)
  then show ?thesis using assms by (simp add: iteration_raises)
next
  case (completed out ts)
  from completed_fields(4) [OF assms(1) completed(2), of ts] show ?thesis
    using completed assms by auto
next
  case (close_fails out ts)
  from close_fails_fields(1) [OF assms(1) close_fails(2-4), of ts] show ?thesis
    using close_fails assms by simp
qed

lemma iteration_start_known:
  assumes "self < length (objects a)"
    and "is_down (deref a self) \<longrightarrow> current_downtime_start (deref a self) \<noteq> None"
  shows "is_down (deref (monitor_iteration self ev a) self) \<longrightarrow>
         current_downtime_start (deref (monitor_iteration self ev a) self) \<noteq> None"
proof (cases rule: pass_cases [where ev = ev and a = a and self = self])
  case (raised e ts)
  then show ?thesis using assms by (simp add: iteration_raises)
next
  case (completed out ts)
  from completed_fields(2,3) [OF assms(1) completed(2), of ts] show ?thesis
    using completed assms by auto
next
  case (close_fails out ts)
  from close_fails_fields(1) [OF assms(1) close_fails(2-4), of ts] show ?thesis
    using close_fails assms by simp
qed

lemma loop_downtime:
  assumes "self < length (objects a)" "downtime_summary (deref a self) = None"
    and "is_down (deref a self) \<longrightarrow> current_downtime_start (deref a self) \<noteq> None"
  shows "downtime_summary (deref (monitor_loop self evs a) self) = None
       \<and> (is_down (deref (monitor_loop self evs a) self) \<longrightarrow>
            current_downtime_start (deref (monitor_loop self evs a) self) \<noteq> None)
       \<and> alternating (is_down (deref a self)) (transitions self evs a)"
  using assms
proof (induction evs arbitrary: a)
  case Nil
  then show ?case by simp
next
  case (Cons ev evs)
  show ?case
  proof (cases "is_monitoring (deref a self) = Some True")
    case False
    then show ?thesis using Cons.prems by simp
  next
    case True
    let ?a1 = "monitor_iteration self ev a"
    have v1: "self < length (objects ?a1)"
      using iteration_frame(1) [OF Cons.prems(1)] Cons.prems(1) by simp
    note ih = Cons.IH [OF v1 iteration_no_attribute [OF Cons.prems(1,2)]
        iteration_start_known [OF Cons.prems(1,3)]]
    have "alternating (is_down (deref a self))
            ((case pass_transition self ev a of None \<Rightarrow> [] | Some t \<Rightarrow> [t]) @ transitions self evs ?a1)"
    proof (cases "pass_transition self ev a")
      case None
      then show ?thesis using ih iteration_is_down [OF Cons.prems(1), of ev] by simp
    next
      case (Some t)
      then show ?thesis
        using ih iteration_is_down [OF Cons.prems(1), of ev]
          pass_transition_opens [of self ev a] pass_transition_closes [of self ev a]
        by (cases t) simp_all
    qed
    then show ?thesis using True ih by simp
  qed
qed

section \<open>The loss percentage\<close>





lemma binary64_tie: "binary64 (binary64 (1 - binary64 (31 / 32)) * 100) = 25 / 8"
  by code_simp

lemma loss_of_tie: "loss_pct (replicate 31 1 @ [0]) = Inr (25 / 8)"
  by (simp add: loss_pct_def truediv_def sum_list_replicate binary64_tie)

lemma format_tie: "format_2f (25 / 8) = ''3.12''"
  by code_simp

lemma loss_of_empty: "loss_pct [] = Inl ZeroDivisionError"
  by (simp add: loss_pct_def truediv_def)

lemma loss_pct_formula:
  "buf \<noteq> [] \<Longrightarrow> loss_pct buf =
     Inr (binary64 (binary64 (1 - binary64 (of_int (sum_list buf) / of_int (int (length buf)))) * 100))"
  by (simp add: loss_pct_def truediv_def)

lemma shown_loss_eq:
  "shown_loss buf = (case loss_pct buf of Inl e \<Rightarrow> Loss_zero | Inr x \<Rightarrow> Loss_pct (format_2f x))"
  by (cases "buf = []") (simp_all add: shown_loss_def loss_of_empty loss_pct_formula)

lemma iteration_label:
  assumes "self < length (objects a)"
    and "packet_loss_label (deref a self) = shown_loss (availability (deref a self))"
  shows "packet_loss_label (deref (monitor_iteration self ev a) self) =
           shown_loss (availability (deref (monitor_iteration self ev a) self))"
proof (cases rule: pass_cases [where ev = ev and a = a and self = self])
  case (raised e ts)
  then show ?thesis using assms by (simp add: iteration_raises)
next
  case (completed out ts)
  let ?b = "availability (deref (monitor_iteration self (Probe_out out, ts) a) self)"
  have ne: "?b \<noteq> []" using completed_fields(1) [OF assms(1) completed(2), of ts] by simp
  from completed_fields(7) [OF assms(1) completed(2) loss_pct_formula [OF ne]]
  show ?thesis using completed(1) ne by (simp add: shown_loss_def)
next
  case (close_fails out ts)
  from close_fails_fields(1) [OF assms(1) close_fails(2-4), of ts] show ?thesis
    using close_fails assms by simp
qed



lemma init_label:
  "DeviceMonitor_init parent addr nm a = (r, a') \<Longrightarrow>
   availability (deref a' r) = [] \<and> packet_loss_label (deref a' r) = Loss_zero"
  by (auto simp: DeviceMonitor_init_def deref_def)




section \<open>Adding a device whose address is known\<close>

text \<open>
  C5 (as amended). Adding a device whose address is already a key of the settings' device
  mapping is ignored without a word: \<open>_add_device\<close> returns as it does after a successful
  add, it raises nothing (the code has no DuplicateDeviceError) and reports nothing. It
  returns before any assignment, so the whole state is as it was: the monitor list, the
  device mapping, every monitor, the settings file and the running threads; no
  DeviceMonitor is built or started.
\<close>

theorem existing_device_is_not_added:
  assumes "settings a = Some devs" "addr \<in> set (map fst devs)"
  shows "add_device (Some addr) name_answer io a = Inr a"
  using assms by (simp add: add_device_def)

theorem existing_device_is_not_added_witness:
  "settings one_device = Some [(''10.0.0.1'', ''router'')]
   \<and> ''10.0.0.1'' \<in> set (map fst [(''10.0.0.1'', ''router'')])
   \<and> add_device (Some ''10.0.0.1'') (Some ''second'') (Some OSError) one_device = Inr one_device"
proof -
  have s: "settings one_device = Some [(''10.0.0.1'', ''router'')]"
    by (simp add: one_device_eq)
  have m: "''10.0.0.1'' \<in> set (map fst [(''10.0.0.1'', ''router'')])" by simp
  show ?thesis
    using existing_device_is_not_added [OF s m, of "Some ''second''" "Some OSError"] s m by blast
qed

theorem duplicate_add_raises_nothing:
  "add_device (Some ''10.0.0.1'') (Some ''copy'') None one_device = Inr one_device"
  by (simp add: add_device_def one_device_eq)


section \<open>Reset\<close>

lemma nth_update_at:
  "xs[i := x] ! r = (if r = i \<and> i < length xs then x else xs ! r)"
  by (cases "i < length xs") (simp_all add: nth_list_update list_update_beyond)

lemma reset_other: "r \<noteq> self \<Longrightarrow> deref (reset self a) r = deref a r"
  by (simp add: reset_def)










section \<open>Auto-save\<close>

text \<open>
  C7 (as amended). A tick of the auto-save timer runs \<open>job\<close>, with the interval of 86400
  seconds and the last save at \<open>l\<close>. When less than the interval has passed since \<open>l\<close>, or
  monitoring is not active, nothing is saved. When the interval has passed, monitoring is
  active and the file is written without an exception, exactly one file is written, holding
  the texts of the log, and the last save time becomes the clock read after the write. When
  the write raises, the exception is logged, no file is recorded and the last save time
  stays \<open>l\<close>. In every case the log is unchanged and one new timer is armed.
\<close>

theorem auto_save_tick:
  assumes "last_save_time a = Some l"
  shows "(now - l < 86400 * 1000000 \<or> \<not> timer_running a \<longrightarrow>
            log_files (auto_save_job now ts io finished a) = log_files a
          \<and> last_save_time (auto_save_job now ts io finished a) = Some l
          \<and> error_log (auto_save_job now ts io finished a) = error_log a)
       \<and> (86400 * 1000000 \<le> now - l \<and> timer_running a \<and> io = None \<longrightarrow>
            log_files (auto_save_job now ts io finished a) = log_files a @ [(ts, map fst (full_log a))]
          \<and> last_save_time (auto_save_job now ts io finished a) = Some finished
          \<and> error_log (auto_save_job now ts io finished a) = error_log a)
       \<and> (\<forall>e. 86400 * 1000000 \<le> now - l \<and> timer_running a \<and> io = Some e \<longrightarrow>
            log_files (auto_save_job now ts io finished a) = log_files a
          \<and> last_save_time (auto_save_job now ts io finished a) = Some l
          \<and> error_log (auto_save_job now ts io finished a) = error_log a @ [Save_log_failed e])
       \<and> full_log (auto_save_job now ts io finished a) = full_log a
       \<and> auto_save_timer (auto_save_job now ts io finished a) = Some (length (timers a))
       \<and> timers (auto_save_job now ts io finished a) = timers a @ [True]"
  using assms
  by (cases io) (auto simp: auto_save_job_def save_log_def log_error_def AUTO_SAVE_INTERVAL_def Let_def)

theorem auto_save_tick_witness:
  "last_save_time one_device = Some 0 \<and> timer_running one_device
   \<and> log_files (auto_save_job 86399999999 86400000001 None 86400000002 one_device) = []
   \<and> log_files (auto_save_job 86400000000 86400000001 None 86400000002 one_device) = [(86400000001, [])]
   \<and> last_save_time (auto_save_job 86400000000 86400000001 None 86400000002 one_device) = Some 86400000002
   \<and> error_log (auto_save_job 86400000000 86400000001 (Some OSError) 86400000002 one_device) = [Save_log_failed OSError]"
proof -
  have h: "last_save_time one_device = Some 0" and r: "timer_running one_device"
    and e: "log_files one_device = []" "full_log one_device = []" "error_log one_device = []"
    by (simp_all add: one_device_eq)
  show ?thesis
    using auto_save_tick [OF h, of 86399999999 86400000001 None 86400000002]
      auto_save_tick [OF h, of 86400000000 86400000001 None 86400000002]
      auto_save_tick [OF h, of 86400000000 86400000001 "Some OSError" 86400000002]
      h r e
    by simp
qed

theorem failed_write_keeps_the_save_due:
  "timer_running one_device \<and> last_save_time one_device = Some 0
   \<and> log_files (auto_save_job 86400000000 86400000001 (Some OSError) 86400000002 one_device) = []
   \<and> last_save_time (auto_save_job 86400000000 86400000001 (Some OSError) 86400000002 one_device) = Some 0"
  by (simp add: one_device_eq auto_save_job_def save_log_def log_error_def AUTO_SAVE_INTERVAL_def)


section \<open>The summary\<close>

lemma closed_lines_ok:
  "\<forall>i\<in>set l. fst i \<noteq> None \<Longrightarrow>
   closed_lines nm l = Inr (map (\<lambda>i. Closed (the (fst i)) (snd i) nm) l)"
  by (induction nm l rule: closed_lines.induct) simp_all

lemma get_downtime_summary_ok:
  assumes "\<forall>i\<in>set (recorded_intervals m). fst i \<noteq> None"
    and "is_down m \<longrightarrow> current_downtime_start m \<noteq> None"
  shows "get_downtime_summary m =
     Inr (map (\<lambda>i. Closed (the (fst i)) (snd i) (name m)) (recorded_intervals m) @
          (if is_down m then [Ongoing (the (current_downtime_start m)) (name m)] else []))"
  using assms closed_lines_ok [OF assms(1), of "name m"]
  by (auto simp: get_downtime_summary_def split: option.splits)

lemma all_lines_ok:
  assumes "\<forall>m\<in>set ms. (\<forall>i\<in>set (recorded_intervals m). fst i \<noteq> None)
             \<and> (is_down m \<longrightarrow> current_downtime_start m \<noteq> None)"
  shows "all_lines ms =
     Inr (concat (map (\<lambda>m. map (\<lambda>i. Closed (the (fst i)) (snd i) (name m)) (recorded_intervals m) @
          (if is_down m then [Ongoing (the (current_downtime_start m)) (name m)] else [])) ms))"
  using assms
proof (induction ms)
  case Nil
  then show ?case by simp
next
  case (Cons m ms)
  then show ?case using get_downtime_summary_ok [of m] by simp
qed

lemma first_timeout_facts:
  "monitors (monitor_iteration 0 (timeout, 20) one_device) = [0]"
  "recorded_intervals (deref (monitor_iteration 0 (timeout, 20) one_device) 0) = []"
  "is_down (deref (monitor_iteration 0 (timeout, 20) one_device) 0)"
  "current_downtime_start (deref (monitor_iteration 0 (timeout, 20) one_device) 0) = Some 20"
  "name (deref (monitor_iteration 0 (timeout, 20) one_device) 0) = ''router''"
proof -
  have c: "lost_in ''Request timed out. Lost = 1 (100% loss)'' \<or> \<not> is_down (deref one_device 0)
         \<or> (0 \<in> set (monitors one_device) \<and> downtime_summary (deref one_device 0) \<noteq> None)"
    by (simp add: lost_in_timeout)
  note f = completed_fields [OF one_device_facts(1) c, of 20]
    iteration_frame [OF one_device_facts(1), where ev = "(timeout, 20)"]
  have m: "monitors one_device = [0]" by (simp add: one_device_eq)
  show "monitors (monitor_iteration 0 (timeout, 20) one_device) = [0]"
    "recorded_intervals (deref (monitor_iteration 0 (timeout, 20) one_device) 0) = []"
    "is_down (deref (monitor_iteration 0 (timeout, 20) one_device) 0)"
    "current_downtime_start (deref (monitor_iteration 0 (timeout, 20) one_device) 0) = Some 20"
    "name (deref (monitor_iteration 0 (timeout, 20) one_device) 0) = ''router''"
    using f(2-4) f(9,12) m
    by (simp_all add: timeout_def lost_in_timeout one_device_facts recorded_intervals_def)
qed

text \<open>
  What an update of the summary window shows, given what the monitors hold. In a state where
  every recorded interval has a start and every device that is down has
  the start of its open interval (the states the loop reaches), an update of the summary
  window shows, for the monitors in the order of the list, one line for each recorded
  interval of the device (start, end and name) followed, when the device is down, by one line
  for the open interval; when there is no line at all it shows the one placeholder line. The
  update changes the view and nothing else: no monitor, not the list, not the log.
\<close>

theorem summary_lists_the_intervals:
  assumes "\<forall>r\<in>set (monitors a). \<forall>i\<in>set (recorded_intervals (deref a r)). fst i \<noteq> None"
    and "\<forall>r\<in>set (monitors a). is_down (deref a r) \<longrightarrow> current_downtime_start (deref a r) \<noteq> None"
  shows "\<exists>a'. show_summary_upd a = Inr a'
       \<and> objects a' = objects a \<and> monitors a' = monitors a \<and> full_log a' = full_log a
       \<and> a' = a\<lparr>summary_view := summary_view a'\<rparr>
       \<and> summary_view a' = Some
           (let ls = concat (map (\<lambda>r.
                  map (\<lambda>i. Closed (the (fst i)) (snd i) (name (deref a r))) (recorded_intervals (deref a r)) @
                  (if is_down (deref a r)
                   then [Ongoing (the (current_downtime_start (deref a r))) (name (deref a r))] else []))
                (monitors a))
            in if ls = [] then [No_issues] else ls)"
proof -
  have "\<forall>m\<in>set (map (deref a) (monitors a)). (\<forall>i\<in>set (recorded_intervals m). fst i \<noteq> None)
             \<and> (is_down m \<longrightarrow> current_downtime_start m \<noteq> None)"
    using assms by simp
  from all_lines_ok [OF this] show ?thesis
    by (simp add: show_summary_upd_def Let_def comp_def)
qed


theorem summary_lists_the_intervals_witness:
  "monitors (monitor_iteration 0 (timeout, 20) one_device) = [0]
   \<and> recorded_intervals (deref (monitor_iteration 0 (timeout, 20) one_device) 0) = []
   \<and> is_down (deref (monitor_iteration 0 (timeout, 20) one_device) 0)
   \<and> current_downtime_start (deref (monitor_iteration 0 (timeout, 20) one_device) 0) = Some 20
   \<and> (\<exists>a'. show_summary_upd (monitor_iteration 0 (timeout, 20) one_device) = Inr a'
         \<and> objects a' = objects (monitor_iteration 0 (timeout, 20) one_device)
         \<and> summary_view a' = Some [Ongoing 20 ''router''])
   \<and> (\<exists>a'. show_summary_upd one_device = Inr a' \<and> summary_view a' = Some [No_issues])"
proof -
  let ?s = "monitor_iteration 0 (timeout, 20) one_device"
  have h1: "\<forall>r\<in>set (monitors ?s). \<forall>i\<in>set (recorded_intervals (deref ?s r)). fst i \<noteq> None"
    and h2: "\<forall>r\<in>set (monitors ?s). is_down (deref ?s r) \<longrightarrow> current_downtime_start (deref ?s r) \<noteq> None"
    by (simp_all add: first_timeout_facts)
  have m: "monitors one_device = [0]" by (simp add: one_device_eq)
  have g1: "\<forall>r\<in>set (monitors one_device). \<forall>i\<in>set (recorded_intervals (deref one_device r)). fst i \<noteq> None"
    and g2: "\<forall>r\<in>set (monitors one_device). is_down (deref one_device r) \<longrightarrow> current_downtime_start (deref one_device r) \<noteq> None"
    by (simp_all add: m one_device_facts recorded_intervals_def)
  from summary_lists_the_intervals [OF h1 h2]
  have a: "\<exists>a'. show_summary_upd ?s = Inr a' \<and> objects a' = objects ?s
         \<and> summary_view a' = Some [Ongoing 20 ''router'']"
    by (auto simp: first_timeout_facts)
  from summary_lists_the_intervals [OF g1 g2]
  have b: "\<exists>a'. show_summary_upd one_device = Inr a' \<and> summary_view a' = Some [No_issues]"
    by (auto simp: m one_device_facts recorded_intervals_def)
  show ?thesis using a b first_timeout_facts(1-4) by blast
qed


text \<open>
  C9. The summary should show one line for each completed downtime interval of each device.
  It never shows one: no interval is ever recorded, since the pass that closes an interval
  raises on the missing \<open>downtime_summary\<close>, and \<open>get_downtime_summary\<close> reads the attribute with
  the default \<open>[]\<close>. For the probes reply, timeout, timeout, reply the device goes down at 20
  and comes up at 40; afterwards \<open>get_downtime_summary\<close> returns no line and the window shows
  the placeholder, as if nothing had happened. While the outage lasts, after the third probe,
  the window shows the line of the open interval. On a monitor that has the attribute the same
  four probes give the line of the interval from 20 to 40. In each case the update changes the
  view and nothing else. (\<open>summary_in_any_state\<close> below: in every state that the application
  reaches, the lines are those of the open intervals.)
\<close>

theorem finished_outage_is_not_in_the_summary:
  "transitions 0 [(reply, 10), (timeout, 20), (timeout, 30), (reply, 40)] one_device
     = [Went_down 20, Came_up 40]
   \<and> get_downtime_summary (deref (monitor_loop 0
        [(reply, 10), (timeout, 20), (timeout, 30), (reply, 40)] one_device) 0) = Inr []
   \<and> show_summary_upd (monitor_loop 0 [(reply, 10), (timeout, 20), (timeout, 30), (reply, 40)] one_device)
     = Inr ((monitor_loop 0 [(reply, 10), (timeout, 20), (timeout, 30), (reply, 40)] one_device)
              \<lparr>summary_view := Some [No_issues]\<rparr>)
   \<and> show_summary_upd (monitor_loop 0 [(reply, 10), (timeout, 20), (timeout, 30)] one_device)
     = Inr ((monitor_loop 0 [(reply, 10), (timeout, 20), (timeout, 30)] one_device)
              \<lparr>summary_view := Some [Ongoing 20 ''router'']\<rparr>)
   \<and> show_summary_upd (monitor_loop 0 [(reply, 10), (timeout, 20), (timeout, 30), (reply, 40)] with_attribute)
     = Inr ((monitor_loop 0 [(reply, 10), (timeout, 20), (timeout, 30), (reply, 40)] with_attribute)
              \<lparr>summary_view := Some [Closed 20 40 ''router'']\<rparr>)"
  by code_simp


section \<open>Concurrent appends to the shared log\<close>

lemma mset_concat_update:
  "i < length ws \<Longrightarrow>
   mset (concat (map f (ws[i := w]))) + mset (f (ws ! i)) = mset (concat (map f ws)) + mset (f w)"
proof (induction ws arbitrary: i)
  case Nil
  then show ?case by simp
next
  case (Cons x ws)
  then show ?case by (cases i) (simp_all add: ac_simps)
qed

lemma idle_disciplined: "idle s \<Longrightarrow> disciplined s \<and> inflight s = []
   \<and> outstanding s = concat (map pending (appenders s))"
proof -
  assume i: "idle s"
  then have n: "\<forall>w\<in>set (appenders s). current w = None" and l: "lock_owner s = None"
    by (simp_all add: idle_def list_all_iff)
  have m: "map (\<lambda>w. (case current w of None \<Rightarrow> [] | Some (b, k) \<Rightarrow> [b]) @ pending w) (appenders s)
        = map pending (appenders s)"
    using n by (intro map_cong) auto
  show ?thesis using n l by (auto simp: disciplined_def inflight_def outstanding_def m)
qed


lemma step_invariant:
  assumes d: "disciplined s"
    and l: "shared_log s = base @ concat done @ inflight s"
  shows "\<exists>done'. disciplined (step i s)
       \<and> shared_log (step i s) = base @ concat done' @ inflight (step i s)
       \<and> mset done' + mset (outstanding (step i s)) = mset done + mset (outstanding s)
       \<and> length (appenders (step i s)) = length (appenders s)"
proof -
  let ?w = "appenders s ! i"
  let ?f = "\<lambda>w. (case current w of None \<Rightarrow> [] | Some (b, k) \<Rightarrow> [b]) @ pending w"
  have same: ?thesis if "step i s = s"
    using that d l by (intro exI [of _ "done"]) simp
  consider (beyond) "length (appenders s) \<le> i"
    | (nothing) "i < length (appenders s)" "current ?w = None" "pending ?w = []"
    | (blocked) "i < length (appenders s)" "current ?w = None" "pending ?w \<noteq> []" "lock_owner s \<noteq> None"
    | (acquire) b bs where "i < length (appenders s)" "current ?w = None" "pending ?w = b # bs" "lock_owner s = None"
    | (copy) b k where "i < length (appenders s)" "current ?w = Some (b, k)" "k < length b"
    | (release) b k where "i < length (appenders s)" "current ?w = Some (b, k)" "\<not> k < length b"
  proof (cases "i < length (appenders s)")
    case False
    then show ?thesis using that(1) by simp
  next
    case True
    show ?thesis
    proof (cases "current ?w")
      case None
      show ?thesis
      proof (cases "pending ?w")
        case Nil
        from that(2) [OF True None Nil] show ?thesis .
      next
        case (Cons b bs)
        show ?thesis
        proof (cases "lock_owner s")
          case free: None
          from that(4) [OF True None Cons free] show ?thesis .
        next
          case (Some j)
          then have "lock_owner s \<noteq> None" "pending ?w \<noteq> []" using Cons by simp_all
          from that(3) [OF True None this(2,1)] show ?thesis .
        qed
      qed
    next
      case (Some c)
      obtain b k where c: "c = (b, k)" by (cases c)
      show ?thesis
      proof (cases "k < length b")
        case True
        from that(5) [OF \<open>i < length (appenders s)\<close> Some [unfolded c] True] show ?thesis .
      next
        case False
        from that(6) [OF \<open>i < length (appenders s)\<close> Some [unfolded c] False] show ?thesis .
      qed
    qed
  qed
  then show ?thesis
  proof cases
    case beyond
    then have "step i s = s" by (simp add: step_def)
    then show ?thesis by (rule same)
  next
    case nothing
    then have "step i s = s" by (simp add: step_def)
    then show ?thesis by (rule same)
  next
    case blocked
    then have "step i s = s" by (cases "pending ?w") (auto simp: step_def)
    then show ?thesis by (rule same)
  next
    case (acquire b bs)
    let ?s' = "s\<lparr>lock_owner := Some i,
                 appenders := (appenders s)[i := ?w\<lparr>pending := bs, current := Some (b, 0)\<rparr>]\<rparr>"
    have s': "step i s = ?s'" using acquire by (simp add: step_def)
    have nobody: "current (appenders s ! j) = None" if "j < length (appenders s)" for j
      using d acquire(4) that unfolding disciplined_def by (metis option.distinct(1))
    have p1: "\<forall>j < length (appenders ?s'). current (appenders ?s' ! j) \<noteq> None \<longrightarrow> lock_owner ?s' = Some j"
    proof (intro allI impI)
      fix j assume "j < length (appenders ?s')" "current (appenders ?s' ! j) \<noteq> None"
      then show "lock_owner ?s' = Some j"
        using nobody [of j] by (cases "j = i") simp_all
    qed
    have p2: "\<forall>j. lock_owner ?s' = Some j \<longrightarrow> j < length (appenders ?s') \<and> current (appenders ?s' ! j) \<noteq> None"
    proof (intro allI impI)
      fix j assume "lock_owner ?s' = Some j"
      then show "j < length (appenders ?s') \<and> current (appenders ?s' ! j) \<noteq> None"
        using acquire(1) by simp
    qed
    have p3: "\<forall>j < length (appenders ?s'). \<forall>b' k'. current (appenders ?s' ! j) = Some (b', k') \<longrightarrow> k' \<le> length b'"
    proof (intro allI impI)
      fix j b' k' assume "j < length (appenders ?s')" "current (appenders ?s' ! j) = Some (b', k')"
      then show "k' \<le> length b'"
        using nobody [of j] by (cases "j = i") simp_all
    qed
    have d': "disciplined ?s'"
      unfolding disciplined_def by (rule conjI [OF p1 conjI [OF p2 p3]])
    have i': "inflight ?s' = []" "inflight s = []"
      using acquire(1,4) by (simp_all add: inflight_def)
    have o': "mset (outstanding ?s') = mset (outstanding s)"
      using mset_concat_update [OF acquire(1), of ?f "?w\<lparr>pending := bs, current := Some (b, 0)\<rparr>"] acquire(2,3)
      by (simp add: outstanding_def)
    show ?thesis unfolding s' using d' i' o' l by (intro exI [of _ "done"]) simp
  next
    case (copy b k)
    have own: "lock_owner s = Some i"
      using d copy(1,2) unfolding disciplined_def by (metis option.distinct(1))
    have inf: "inflight s = take k b" using own copy(2) by (simp add: inflight_def)
    let ?s' = "s\<lparr>shared_log := shared_log s @ [b ! k],
                 appenders := (appenders s)[i := ?w\<lparr>current := Some (b, Suc k)\<rparr>]\<rparr>"
    have s': "step i s = ?s'" using copy by (simp add: step_def)
    have d1: "current (appenders s ! j) \<noteq> None \<Longrightarrow> lock_owner s = Some j" if "j < length (appenders s)" for j
      using d that unfolding disciplined_def by blast
    have d3: "current (appenders s ! j) = Some (b', k') \<Longrightarrow> k' \<le> length b'" if "j < length (appenders s)" for j b' k'
      using d that unfolding disciplined_def by blast
    have p1: "\<forall>j < length (appenders ?s'). current (appenders ?s' ! j) \<noteq> None \<longrightarrow> lock_owner ?s' = Some j"
    proof (intro allI impI)
      fix j assume "j < length (appenders ?s')" "current (appenders ?s' ! j) \<noteq> None"
      then show "lock_owner ?s' = Some j"
        using d1 [of j] own by (cases "j = i") simp_all
    qed
    have p2: "\<forall>j. lock_owner ?s' = Some j \<longrightarrow> j < length (appenders ?s') \<and> current (appenders ?s' ! j) \<noteq> None"
    proof (intro allI impI)
      fix j assume "lock_owner ?s' = Some j"
      then show "j < length (appenders ?s') \<and> current (appenders ?s' ! j) \<noteq> None"
        using own copy(1) by simp
    qed
    have p3: "\<forall>j < length (appenders ?s'). \<forall>b' k'. current (appenders ?s' ! j) = Some (b', k') \<longrightarrow> k' \<le> length b'"
    proof (intro allI impI)
      fix j b' k' assume "j < length (appenders ?s')" "current (appenders ?s' ! j) = Some (b', k')"
      then show "k' \<le> length b'"
        using d3 [of j b' k'] copy(3) by (cases "j = i") auto
    qed
    have d': "disciplined ?s'"
      unfolding disciplined_def by (rule conjI [OF p1 conjI [OF p2 p3]])
    have i': "inflight ?s' = take k b @ [b ! k]"
      using copy(1,3) own by (simp add: inflight_def take_Suc_conv_app_nth)
    have o': "mset (outstanding ?s') = mset (outstanding s)"
      using mset_concat_update [OF copy(1), of ?f "?w\<lparr>current := Some (b, Suc k)\<rparr>"] copy(2)
      by (simp add: outstanding_def)
    show ?thesis unfolding s' using d' i' o' l inf by (intro exI [of _ "done"]) simp
  next
    case (release b k)
    have own: "lock_owner s = Some i"
      using d release(1,2) unfolding disciplined_def by (metis option.distinct(1))
    have "k \<le> length b" using d release(1,2) unfolding disciplined_def by blast
    then have kb: "k = length b" using release(3) by simp
    have inf: "inflight s = b" using own release(2) kb by (simp add: inflight_def)
    let ?s' = "s\<lparr>lock_owner := None, appenders := (appenders s)[i := ?w\<lparr>current := None\<rparr>]\<rparr>"
    have s': "step i s = ?s'" using release by (simp add: step_def)
    have others: "current (appenders s ! j) = None" if "j < length (appenders s)" "j \<noteq> i" for j
      using d own that unfolding disciplined_def by (metis option.inject)
    have p1: "\<forall>j < length (appenders ?s'). current (appenders ?s' ! j) \<noteq> None \<longrightarrow> lock_owner ?s' = Some j"
    proof (intro allI impI)
      fix j assume "j < length (appenders ?s')" "current (appenders ?s' ! j) \<noteq> None"
      then show "lock_owner ?s' = Some j"
        using others [of j] by (cases "j = i") simp_all
    qed
    have p2: "\<forall>j. lock_owner ?s' = Some j \<longrightarrow> j < length (appenders ?s') \<and> current (appenders ?s' ! j) \<noteq> None"
    proof (intro allI impI)
      fix j assume "lock_owner ?s' = Some j"
      then show "j < length (appenders ?s') \<and> current (appenders ?s' ! j) \<noteq> None"
        by simp
    qed
    have p3: "\<forall>j < length (appenders ?s'). \<forall>b' k'. current (appenders ?s' ! j) = Some (b', k') \<longrightarrow> k' \<le> length b'"
    proof (intro allI impI)
      fix j b' k' assume "j < length (appenders ?s')" "current (appenders ?s' ! j) = Some (b', k')"
      then show "k' \<le> length b'"
        using others [of j] by (cases "j = i") simp_all
    qed
    have d': "disciplined ?s'"
      unfolding disciplined_def by (rule conjI [OF p1 conjI [OF p2 p3]])
    have i': "inflight ?s' = []" by (simp add: inflight_def)
    have o': "mset (outstanding ?s') + {#b#} = mset (outstanding s)"
      using mset_concat_update [OF release(1), of ?f "?w\<lparr>current := None\<rparr>"] release(2)
      by (simp add: outstanding_def)
    have l': "shared_log ?s' = base @ concat (done @ [b]) @ inflight ?s'"
      using l inf i' by simp
    have m': "mset (done @ [b]) + mset (outstanding ?s') = mset done + mset (outstanding s)"
      using o' by (simp add: ac_simps)
    show ?thesis unfolding s' using d' l' m' by (intro exI [of _ "done @ [b]"]) simp
  qed
qed


lemma run_invariant:
  assumes "disciplined s" "shared_log s = base @ concat done @ inflight s"
  shows "\<exists>done'. disciplined (run schedule s)
       \<and> shared_log (run schedule s) = base @ concat done' @ inflight (run schedule s)
       \<and> mset done' + mset (outstanding (run schedule s)) = mset done + mset (outstanding s)"
  using assms
proof (induction schedule arbitrary: s "done")
  case Nil
  then show ?case by (auto simp: run_def)
next
  case (Cons i schedule)
  from step_invariant [OF Cons.prems, of i] obtain d1 where
    1: "disciplined (step i s)" "shared_log (step i s) = base @ concat d1 @ inflight (step i s)"
      "mset d1 + mset (outstanding (step i s)) = mset done + mset (outstanding s)"
    by blast
  from Cons.IH [OF 1(1,2), of ] obtain d2 where
    2: "disciplined (run schedule (step i s))"
      "shared_log (run schedule (step i s)) = base @ concat d2 @ inflight (run schedule (step i s))"
      "mset d2 + mset (outstanding (run schedule (step i s))) = mset d1 + mset (outstanding (step i s))"
    by blast
  have r: "run (i # schedule) s = run schedule (step i s)" by (simp add: run_def)
  show ?case unfolding r using 2 1(3) by (intro exI [of _ d2]) simp
qed

lemma all_appended_settled:
  assumes "all_appended s" "disciplined s"
  shows "inflight s = []" "outstanding s = []"
proof -
  have n: "\<forall>w\<in>set (appenders s). current w = None \<and> pending w = []"
    using assms(1) by (simp add: all_appended_def list_all_iff)
  have "lock_owner s = None"
  proof (cases "lock_owner s")
    case None
    then show ?thesis .
  next
    case (Some i)
    then have "i < length (appenders s)" "current (appenders s ! i) \<noteq> None"
      using assms(2) unfolding disciplined_def by blast+
    then show ?thesis using n by (metis nth_mem)
  qed
  then show "inflight s = []" by (simp add: inflight_def)
  have "map (\<lambda>w. (case current w of None \<Rightarrow> [] | Some (b, k) \<Rightarrow> [b]) @ pending w) (appenders s)
        = map (\<lambda>w. []) (appenders s)"
    using n by (intro map_cong) auto
  then show "outstanding s = []" by (simp add: outstanding_def)
qed

lemma two_devices_run:
  "run [0, 1, 0, 1, 0, 1, 0, 1, 0, 1, 1, 1, 1, 1] two_devices =
     \<lparr>shared_log = [(Stamp 10, None), (Exchange ''router'' ''10.0.0.1'', None), (Reply_received, None),
                    (Stamp 11, None), (Exchange ''printer'' ''10.0.0.2'', None), (No_reply, Some ''error'')],
      lock_owner = None,
      appenders = [\<lparr>pending = [], current = None\<rparr>, \<lparr>pending = [], current = None\<rparr>]\<rparr>"
  by (simp add: run_def step_def two_devices_def)

text \<open>
  C10. Threads that append their batches to the shared log, each inside \<open>with log_lock\<close>,
  under any schedule: once every thread has appended all its batches, the log is what it was
  followed by the batches, each one whole and in the order of its items, in some order of the
  batches; the batches in the log are exactly the batches of the threads, each as many times
  as it was appended. No item of one thread's batch lies inside the batch of another.
\<close>

theorem batches_are_appended_whole:
  assumes "idle s" "all_appended (run schedule s)"
  shows "\<exists>done. shared_log (run schedule s) = shared_log s @ concat done
       \<and> mset done = mset (concat (map pending (appenders s)))"
proof -
  note i = idle_disciplined [OF assms(1)]
  have l: "shared_log s = shared_log s @ concat [] @ inflight s" using i by simp
  from run_invariant [OF conjunct1 [OF i] l, of schedule] obtain d where
    d: "disciplined (run schedule s)"
      "shared_log (run schedule s) = shared_log s @ concat d @ inflight (run schedule s)"
      "mset d + mset (outstanding (run schedule s)) = mset [] + mset (outstanding s)"
    by blast
  from all_appended_settled [OF assms(2) d(1)] d(2,3) i
  show ?thesis by (intro exI [of _ d]) simp
qed

theorem batches_are_appended_whole_witness:
  "idle two_devices \<and> all_appended (run [0, 1, 0, 1, 0, 1, 0, 1, 0, 1, 1, 1, 1, 1] two_devices)
   \<and> shared_log (run [0, 1, 0, 1, 0, 1, 0, 1, 0, 1, 1, 1, 1, 1] two_devices) =
        [(Stamp 10, None), (Exchange ''router'' ''10.0.0.1'', None), (Reply_received, None),
         (Stamp 11, None), (Exchange ''printer'' ''10.0.0.2'', None), (No_reply, Some ''error'')]
   \<and> (\<exists>done. shared_log (run [0, 1, 0, 1, 0, 1, 0, 1, 0, 1, 1, 1, 1, 1] two_devices) =
                 shared_log two_devices @ concat done
         \<and> mset done = mset (concat (map pending (appenders two_devices))))"
proof -
  have i: "idle two_devices" by (simp add: idle_def two_devices_def)
  have a: "all_appended (run [0, 1, 0, 1, 0, 1, 0, 1, 0, 1, 1, 1, 1, 1] two_devices)"
    unfolding two_devices_run by (simp add: all_appended_def)
  from batches_are_appended_whole [OF i a] i a show ?thesis
    unfolding two_devices_run by simp
qed


section \<open>The downtime history when the attribute exists\<close>

text \<open>
  The state machine as it is written works on any monitor that has a \<open>downtime_summary\<close>.
  On such a monitor the four probes success, fail, fail, success record exactly the interval
  from the second timestamp to the fourth, and nothing stays open.
\<close>

lemma with_attribute_facts:
  "0 < length (objects with_attribute)" "is_monitoring (deref with_attribute 0) = Some True"
  "\<not> is_down (deref with_attribute 0)" "downtime_summary (deref with_attribute 0) = Some []"
  "0 \<in> set (monitors with_attribute)" "downtime_inv 0 (deref with_attribute 0)"
  by (simp_all add: with_attribute_def deref_def downtime_inv_def recorded_intervals_def
      ordered_intervals_def)

theorem outage_is_one_interval_with_attribute:
  fixes t1 t2 t3 t4 :: datetime
  assumes "self < length (objects a)" "is_monitoring (deref a self) = Some True"
    and "\<not> is_down (deref a self)" "downtime_summary (deref a self) = Some []"
    and "self \<in> set (monitors a)"
    and "\<not> lost_in o1" "lost_in o2" "lost_in o3" "\<not> lost_in o4"
  shows "recorded_intervals (deref (monitor_loop self
            [(Probe_out o1, t1), (Probe_out o2, t2), (Probe_out o3, t3), (Probe_out o4, t4)] a) self) =
           [(Some t2, t4)]
       \<and> open_intervals (deref (monitor_loop self
            [(Probe_out o1, t1), (Probe_out o2, t2), (Probe_out o3, t3), (Probe_out o4, t4)] a) self) = []"
  using outage_is_recorded_with_attribute [OF assms, of t1 t2 t3 t4]
  by (simp add: recorded_intervals_def open_intervals_def)

theorem outage_is_one_interval_with_attribute_witness:
  "0 < length (objects with_attribute) \<and> is_monitoring (deref with_attribute 0) = Some True
   \<and> \<not> is_down (deref with_attribute 0) \<and> downtime_summary (deref with_attribute 0) = Some []
   \<and> 0 \<in> set (monitors with_attribute)
   \<and> recorded_intervals (deref (monitor_loop 0
        [(reply, 10), (timeout, 20), (timeout, 30), (reply, 40)] with_attribute) 0) = [(Some 20, 40)]"
  using outage_is_one_interval_with_attribute [OF with_attribute_facts(1-5)
      lost_in_reply lost_in_timeout lost_in_timeout lost_in_reply, of 10 20 30 40]
    with_attribute_facts(1-5)
  unfolding reply_def timeout_def by blast

lemma interval_ok_mono: "interval_ok b i \<Longrightarrow> b \<le> b' \<Longrightarrow> interval_ok b' i"
  by (auto simp: interval_ok_def split: option.splits)

lemma list_all_interval_ok_mono:
  "list_all (interval_ok b) l \<Longrightarrow> b \<le> b' \<Longrightarrow> list_all (interval_ok b') l"
  by (auto simp: list_all_iff intro: interval_ok_mono)

lemma ordered_snoc:
  assumes "ordered_intervals l" "list_all (interval_ok s) l" "s < e"
  shows "ordered_intervals (l @ [(Some s, e)])"
    and "list_all (interval_ok (e + 1)) (l @ [(Some s, e)])"
proof -
  have "\<forall>i\<in>set l. before i (Some s, e)"
    using assms(2) by (auto simp: list_all_iff interval_ok_def before_def split: option.splits)
  then show "ordered_intervals (l @ [(Some s, e)])"
    using assms(1) by (simp add: ordered_intervals_def sorted_wrt_append)
  have "list_all (interval_ok (e + 1)) l"
    using list_all_interval_ok_mono [OF assms(2), of "e + 1"] assms(3) by simp
  then show "list_all (interval_ok (e + 1)) (l @ [(Some s, e)])"
    using assms(3) by (simp add: interval_ok_def)
qed

lemma iteration_downtime_inv:
  assumes v: "self < length (objects a)" and inv: "downtime_inv t (deref a self)" and t: "t \<le> snd ev"
  shows "downtime_inv (snd ev + 1) (deref (monitor_iteration self ev a) self)"
proof (cases rule: pass_cases [where ev = ev and a = a and self = self])
  case (raised e ts)
  then show ?thesis using inv t
    by (auto simp: iteration_raises downtime_inv_def split: option.splits
        intro: list_all_interval_ok_mono)
next
  case (close_fails out ts)
  from close_fails_fields(1) [OF v close_fails(2-4), of ts] show ?thesis
    using close_fails(1,3) inv t
    by (auto simp: downtime_inv_def recorded_intervals_def split: option.splits
        intro: list_all_interval_ok_mono)
next
  case (completed out ts)
  let ?m = "deref a self"
  let ?m' = "deref (monitor_iteration self (Probe_out out, ts) a) self"
  note f = completed_fields(2-4) [OF v completed(2), of ts]
  have ts: "t \<le> ts" using t completed(1) by simp
  show ?thesis
  proof (cases "\<not> lost_in out \<and> is_down ?m")
    case False
    then have same: "recorded_intervals ?m' = recorded_intervals ?m"
      using f(3) by (auto simp: recorded_intervals_def)
    show ?thesis
    proof (cases "lost_in out")
      case True
      then show ?thesis using f(1,2) same inv ts completed(1)
        by (auto simp: downtime_inv_def split: option.splits if_splits
            intro: list_all_interval_ok_mono)
    next
      case up: False
      then have "\<not> is_down ?m" using False by simp
      then show ?thesis using f(1) up same inv ts completed(1)
        by (auto simp: downtime_inv_def intro: list_all_interval_ok_mono)
    qed
  next
    case True
    then obtain l where l: "downtime_summary ?m = Some l" using completed(2) by auto
    from True inv obtain s where s: "current_downtime_start ?m = Some s" "s < t"
      "list_all (interval_ok s) (recorded_intervals ?m)" "ordered_intervals (recorded_intervals ?m)"
      by (auto simp: downtime_inv_def split: option.splits)
    have r: "recorded_intervals ?m = l" using l by (simp add: recorded_intervals_def)
    have r': "recorded_intervals ?m' = l @ [(Some s, ts)]"
      using f(3) True l s(1) by (simp add: recorded_intervals_def)
    have "s < ts" using s(2) ts by simp
    from ordered_snoc [OF s(4) [unfolded r] s(3) [unfolded r] this]
    show ?thesis using f(1) True r' completed(1) by (simp add: downtime_inv_def)
  qed
qed

lemma loop_downtime_inv:
  assumes "self < length (objects a)" "downtime_inv t (deref a self)"
    and "sorted_wrt (<) (map snd evs)" "\<forall>ev\<in>set evs. t \<le> snd ev"
  shows "\<exists>t'. downtime_inv t' (deref (monitor_loop self evs a) self)"
  using assms
proof (induction evs arbitrary: a t)
  case Nil
  then show ?case by auto
next
  case (Cons ev evs)
  show ?case
  proof (cases "is_monitoring (deref a self) = Some True")
    case False
    then show ?thesis using Cons.prems(2) by auto
  next
    case True
    have v1: "self < length (objects (monitor_iteration self ev a))"
      using iteration_frame(1) [OF Cons.prems(1)] Cons.prems(1) by simp
    have i1: "downtime_inv (snd ev + 1) (deref (monitor_iteration self ev a) self)"
      using iteration_downtime_inv [OF Cons.prems(1,2)] Cons.prems(4) by simp
    have s1: "sorted_wrt (<) (map snd evs)" "\<forall>e\<in>set evs. snd ev + 1 \<le> snd e"
      using Cons.prems(3) by auto
    from Cons.IH [OF v1 i1 s1] show ?thesis using True by simp
  qed
qed

text \<open>
  On such a monitor, and with timestamps that increase from pass to pass, the recorded
  intervals stay pairwise ordered and apart, each starts before it ends, and the open
  interval, when there is one, starts after all of them have ended.
\<close>

theorem intervals_stay_ordered:
  assumes "self < length (objects a)" "downtime_inv t (deref a self)"
    and "sorted_wrt (<) (map snd evs)" "\<forall>ev\<in>set evs. t \<le> snd ev"
  shows "ordered_intervals (recorded_intervals (deref (monitor_loop self evs a) self))
       \<and> list_all (\<lambda>i. \<exists>s. fst i = Some s \<and> s < snd i)
            (recorded_intervals (deref (monitor_loop self evs a) self))
       \<and> (is_down (deref (monitor_loop self evs a) self) \<longrightarrow>
            (\<exists>s. current_downtime_start (deref (monitor_loop self evs a) self) = Some s
               \<and> list_all (\<lambda>i. snd i < s) (recorded_intervals (deref (monitor_loop self evs a) self))))"
proof -
  from loop_downtime_inv [OF assms] obtain t' where
    "downtime_inv t' (deref (monitor_loop self evs a) self)" by blast
  then show ?thesis
    by (auto simp: downtime_inv_def interval_ok_def list_all_iff split: option.splits if_splits)
qed


theorem intervals_stay_ordered_witness:
  "0 < length (objects with_attribute) \<and> downtime_inv 0 (deref with_attribute 0)
   \<and> sorted_wrt (<) (map snd [(reply, 10), (timeout, 20), (timeout, 30), (reply, 40 :: datetime)])
   \<and> ordered_intervals (recorded_intervals (deref (monitor_loop 0
        [(reply, 10), (timeout, 20), (timeout, 30), (reply, 40)] with_attribute) 0))
   \<and> list_all (\<lambda>i. \<exists>s. fst i = Some s \<and> s < snd i)
        (recorded_intervals (deref (monitor_loop 0
           [(reply, 10), (timeout, 20), (timeout, 30), (reply, 40)] with_attribute) 0))"
proof -
  have s: "sorted_wrt (<) (map snd [(reply, 10), (timeout, 20), (timeout, 30), (reply, 40 :: datetime)])"
    by simp
  have b: "\<forall>ev\<in>set [(reply, 10), (timeout, 20), (timeout, 30), (reply, 40 :: datetime)]. 0 \<le> snd ev"
    by simp
  from intervals_stay_ordered [OF with_attribute_facts(1,6) s b] s with_attribute_facts(1,6)
  show ?thesis by blast
qed


section \<open>Further properties\<close>

text \<open>
  Two decimals by \<open>.2f\<close> round the exact value of the float half to even: 31 answered probes
  and one lost give 3.125 exactly, shown as 3.12.
\<close>

theorem loss_ties_round_to_even:
  "shown_loss (replicate 31 1 @ [0]) = Loss_pct ''3.12''"
  by (simp add: shown_loss_eq loss_of_tie format_tie)

text \<open>
  Adding a device with a new address and a name, when the last row has room and the settings
  are written: the monitor is built with an empty buffer, appended to the list, entered in
  the device mapping and saved, and started if and only if global monitoring is active.
\<close>

theorem new_device_is_registered:
  assumes "settings a = Some devs" "addr \<noteq> []" "addr \<notin> set (map fst devs)" "nm \<noteq> []"
    and "row_frames a \<noteq> []" "last (row_frames a) < TILE_COLUMNS"
  shows "\<exists>a'. add_device (Some addr) (Some nm) None a = Inr a'
     \<and> monitors a' = monitors a @ [length (objects a)]
     \<and> ip (deref a' (length (objects a))) = addr
     \<and> name (deref a' (length (objects a))) = nm
     \<and> availability (deref a' (length (objects a))) = []
     \<and> is_monitoring (deref a' (length (objects a))) = (if timer_running a then Some True else None)
     \<and> settings a' = Some (AList.update addr nm devs)
     \<and> settings_file a' = Some (Some (AList.update addr nm devs))
     \<and> threads a' = (if timer_running a then threads a @ [length (objects a)] else threads a)"
  using assms
  by (simp add: add_device_def DeviceMonitor_init_def save_json_def start_monitoring_def
      store_def deref_def Let_def nth_append)

theorem new_device_is_registered_witness:
  "settings one_device = Some [(''10.0.0.1'', ''router'')] \<and> row_frames one_device = [1]
   \<and> timer_running one_device \<and> length (objects one_device) = 1
   \<and> (\<exists>a'. add_device (Some ''10.0.0.2'') (Some ''printer'') None one_device = Inr a'
         \<and> monitors a' = [0, 1] \<and> ip (deref a' 1) = ''10.0.0.2''
         \<and> is_monitoring (deref a' 1) = Some True \<and> threads a' = [0, 1]
         \<and> settings a' = Some [(''10.0.0.1'', ''router''), (''10.0.0.2'', ''printer'')])"
proof -
  have f: "settings one_device = Some [(''10.0.0.1'', ''router'')]" "row_frames one_device = [1]"
    "timer_running one_device" "length (objects one_device) = 1" "monitors one_device = [0]"
    "threads one_device = [0]"
    by (simp_all add: one_device_eq)
  have h: "''10.0.0.2'' \<noteq> []" "''10.0.0.2'' \<notin> set (map fst [(''10.0.0.1'', ''router'')])"
    "''printer'' \<noteq> []" "row_frames one_device \<noteq> []" "last (row_frames one_device) < TILE_COLUMNS"
    by (simp_all add: f TILE_COLUMNS_def)
  from new_device_is_registered [OF f(1) h] f show ?thesis by auto
qed

text \<open>
  The buffer on its own: pushing the samples one by one onto an empty buffer leaves the last
  720 of them, in order.
\<close>

theorem buffer_keeps_last_720:
  "foldl push_sample [] xs = drop (length xs - 720) xs \<and> length (foldl push_sample [] xs) \<le> 720"
  by (simp add: buffer_is_last_720)


section \<open>Every state of the application\<close>

subsection \<open>Objects, buffers and the missing attribute\<close>

text \<open>
  \<open>app_ok\<close> holds at \<open>__init__\<close> and every action keeps it: the references of \<open>monitors\<close> are
  distinct objects of the store, no object has the attribute \<open>downtime_summary\<close>, an object that
  is down has the start of its outage, and a buffer holds at most 720 samples, each 0 or 1.
\<close>

lemma app_ok_cong: "objects a' = objects a \<Longrightarrow> monitors a' = monitors a \<Longrightarrow> app_ok a' = app_ok a"
  by (simp add: app_ok_def)

lemma list_all_update: "list_all P xs \<Longrightarrow> P x \<Longrightarrow> list_all P (xs[i := x])"
  using set_update_subset_insert [of xs i x] by (auto simp: list_all_iff)

lemma app_ok_store:
  assumes "app_ok a" "monitor_ok m"
  shows "app_ok (store r m a)"
  using assms by (simp add: app_ok_def store_def list_all_update)

lemma app_ok_deref: "app_ok a \<Longrightarrow> r < length (objects a) \<Longrightarrow> monitor_ok (deref a r)"
  by (simp add: app_ok_def deref_def list_all_length)

lemma monitor_ok_flag [simp]: "monitor_ok (m\<lparr>is_monitoring := x\<rparr>) = monitor_ok m"
  by (simp add: monitor_ok_def)

lemma monitor_ok_name [simp]: "monitor_ok (m\<lparr>name := x\<rparr>) = monitor_ok m"
  by (simp add: monitor_ok_def)

lemma monitor_ok_reset: "monitor_ok m \<Longrightarrow> monitor_ok (m\<lparr>availability := [], packet_loss_label := Loss_zero\<rparr>)"
  by (simp add: monitor_ok_def shown_loss_def)

lemma store_beyond: "\<not> r < length (objects a) \<Longrightarrow> store r m a = a"
  by (simp add: store_def list_update_beyond)

lemma app_ok_start: "app_ok a \<Longrightarrow> app_ok (start_monitoring r a)"
proof (cases "r < length (objects a)")
  case True
  assume "app_ok a"
  then have "app_ok (store r ((deref a r)\<lparr>is_monitoring := Some True\<rparr>) a)"
    using app_ok_store app_ok_deref True by simp
  then show ?thesis by (simp add: start_monitoring_def Let_def app_ok_def)
next
  case False
  assume "app_ok a"
  then show ?thesis using False by (simp add: start_monitoring_def Let_def store_beyond app_ok_def)
qed

lemma app_ok_stop: "app_ok a \<Longrightarrow> app_ok (stop_monitoring r a)"
proof (cases "r < length (objects a)")
  case True
  assume "app_ok a"
  then show ?thesis using app_ok_store app_ok_deref True by (simp add: stop_monitoring_def)
next
  case False
  assume "app_ok a"
  then show ?thesis using False by (simp add: stop_monitoring_def store_beyond)
qed

lemma app_ok_reset: "app_ok a \<Longrightarrow> app_ok (reset r a)"
proof (cases "r < length (objects a)")
  case True
  assume "app_ok a"
  then show ?thesis using app_ok_store app_ok_deref True monitor_ok_reset by (simp add: reset_def)
next
  case False
  assume "app_ok a"
  then show ?thesis using False by (simp add: reset_def store_beyond)
qed

lemma app_ok_foldl:
  assumes "\<And>r a. app_ok a \<Longrightarrow> app_ok (f r a)"
  shows "app_ok a \<Longrightarrow> app_ok (foldl (\<lambda>s m. f m s) a rs)"
  by (induction rs arbitrary: a) (simp_all add: assms)

lemma app_ok_save_json: "app_ok (save_json io a) = app_ok a"
  by (cases io) (simp_all add: save_json_def log_error_def app_ok_def)

lemma app_ok_save_log: "app_ok (snd (save_log notify ts io finished a)) = app_ok a"
  by (cases io) (simp_all add: save_log_def log_error_def app_ok_def)

lemma app_ok_job: "app_ok (auto_save_job now ts io finished a) = app_ok a"
  using app_ok_save_log [of False ts io finished a]
  by (simp add: auto_save_job_def Let_def app_ok_def)

lemma app_ok_cancel: "app_ok (cancel_timer a) = app_ok a"
  by (simp add: cancel_timer_def app_ok_def split: option.splits)

lemma app_ok_app_start: "app_ok a \<Longrightarrow> app_ok (app_start_monitoring started now ts io finished a)"
proof -
  assume a: "app_ok a"
  let ?a1 = "if \<not> timer_running a
             then auto_save_job now ts io finished
                    (a\<lparr>timer_running := True, start_time := Some started, last_save_time := Some started\<rparr>)
             else a"
  have "app_ok ?a1" using a by (simp add: app_ok_job) (simp add: app_ok_def)
  from app_ok_foldl [of start_monitoring, OF app_ok_start this]
  show ?thesis by (simp add: app_start_monitoring_def Let_def)
qed

lemma app_ok_app_stop: "app_ok a \<Longrightarrow> app_ok (app_stop_monitoring a)"
proof -
  assume a: "app_ok a"
  let ?a1 = "if timer_running a then cancel_timer (a\<lparr>timer_running := False\<rparr>) else a"
  have "app_ok ?a1" using a by (simp add: app_ok_cancel) (simp add: app_ok_def)
  from app_ok_foldl [of stop_monitoring, OF app_ok_stop this]
  show ?thesis by (simp add: app_stop_monitoring_def Let_def)
qed

lemma app_ok_reset_all: "app_ok a \<Longrightarrow> app_ok (reset_all a)"
proof -
  assume a: "app_ok a"
  from app_ok_foldl [of reset, OF app_ok_reset a, of "monitors a"]
  show ?thesis by (simp add: reset_all_def app_ok_def)
qed


lemma set_tl_subset_aux: "set (tl xs) \<subseteq> set xs"
  by (cases xs) auto

lemma push_sample_bounds:
  assumes "length buf \<le> 720" "set buf \<subseteq> {0, 1}" "s \<in> {0, 1}"
  shows "length (push_sample buf s) \<le> 720" "set (push_sample buf s) \<subseteq> {0, 1}"
proof -
  show "length (push_sample buf s) \<le> 720" using assms(1) by (simp add: push_sample_def Let_def)
  have "set (tl (buf @ [s])) \<subseteq> set (buf @ [s])" by (rule set_tl_subset_aux)
  then show "set (push_sample buf s) \<subseteq> {0, 1}"
    using assms(2,3) by (auto simp: push_sample_def Let_def)
qed

lemma pass_sample_range: "pass_sample self ev a = Some s \<Longrightarrow> s \<in> {0, 1}"
  by (auto simp: pass_sample_def split: probe.splits sum.splits if_splits)

lemma monitor_ok_iteration:
  assumes v: "self < length (objects a)" and ok: "monitor_ok (deref a self)"
  shows "monitor_ok (deref (monitor_iteration self ev a) self)"
proof -
  let ?m = "deref a self" and ?m' = "deref (monitor_iteration self ev a) self"
  have 1: "downtime_summary ?m' = None"
    using iteration_no_attribute [OF v] ok by (simp add: monitor_ok_def)
  have 2: "is_down ?m' \<longrightarrow> current_downtime_start ?m' \<noteq> None"
    using iteration_start_known [OF v] ok by (simp add: monitor_ok_def)
  have 3: "packet_loss_label ?m' = shown_loss (availability ?m')"
    using iteration_label [OF v] ok by (simp add: monitor_ok_def)
  have 4: "length (availability ?m') \<le> 720 \<and> set (availability ?m') \<subseteq> {0, 1}"
  proof (cases "pass_sample self ev a")
    case None
    then show ?thesis using iteration_availability [OF v, of ev] ok by (simp add: monitor_ok_def)
  next
    case (Some s)
    have b: "length (availability ?m) \<le> 720" "set (availability ?m) \<subseteq> {0, 1}"
      using ok by (simp_all add: monitor_ok_def)
    from push_sample_bounds [OF b pass_sample_range [OF Some]] Some
    show ?thesis using iteration_availability [OF v, of ev] by simp
  qed
  show ?thesis using 1 2 3 4 by (simp add: monitor_ok_def)
qed

lemma objects_iteration:
  assumes "self < length (objects a)"
  shows "objects (monitor_iteration self ev a) =
         (objects a)[self := deref (monitor_iteration self ev a) self]"
proof (rule nth_equalityI)
  show "length (objects (monitor_iteration self ev a)) =
        length ((objects a)[self := deref (monitor_iteration self ev a) self])"
    using iteration_frame(1) [OF assms] by simp
next
  fix i assume "i < length (objects (monitor_iteration self ev a))"
  then have i: "i < length (objects a)" using iteration_frame(1) [OF assms] by simp
  show "objects (monitor_iteration self ev a) ! i =
        (objects a)[self := deref (monitor_iteration self ev a) self] ! i"
  proof (cases "i = self")
    case True
    then show ?thesis using assms by (simp add: deref_def)
  next
    case False
    then show ?thesis using iteration_frame(4) [OF assms, of i ev] by (simp add: deref_def)
  qed
qed

lemma app_ok_pass:
  assumes "app_ok a" "self < length (objects a)"
  shows "app_ok (monitor_iteration self ev a)"
proof -
  have m: "monitor_ok (deref (monitor_iteration self ev a) self)"
    using monitor_ok_iteration [OF assms(2) app_ok_deref [OF assms]] .
  have "list_all monitor_ok (objects (monitor_iteration self ev a))"
    using objects_iteration [OF assms(2), of ev] list_all_update [of monitor_ok "objects a", OF _ m] assms(1)
    by (simp add: app_ok_def)
  then show ?thesis
    using assms(1) iteration_frame(1,2) [OF assms(2), of ev] by (simp add: app_ok_def)
qed


lemma app_ok_new:
  assumes "app_ok a" "objects a1 = objects a" "monitors a1 = monitors a"
    and "DeviceMonitor_init p addr nm a1 = (r, a2)"
    and "objects a' = objects a2" "monitors a' = monitors a2 @ [r]"
  shows "app_ok a'"
proof -
  have r: "r = length (objects a)" and o: "objects a2 = objects a @
      [\<lparr>ip = addr, name = nm, availability = [], is_down = False,
        current_downtime_start = None, downtime_summary = None,
        is_monitoring = None, packet_loss_label = Loss_zero, frame = p\<rparr>]"
    and m: "monitors a2 = monitors a"
    using assms(2-4) by (auto simp: DeviceMonitor_init_def)
  have new: "monitor_ok \<lparr>ip = addr, name = nm, availability = [], is_down = False,
        current_downtime_start = None, downtime_summary = None,
        is_monitoring = None, packet_loss_label = Loss_zero, frame = p\<rparr>"
    by (simp add: monitor_ok_def shown_loss_def)
  have old: "list_all monitor_ok (objects a)" "list_all (\<lambda>r. r < length (objects a)) (monitors a)"
    "distinct (monitors a)"
    using assms(1) by (simp_all add: app_ok_def)
  have "length (objects a) \<notin> set (monitors a)" using old(2) by (auto simp: list_all_iff)
  moreover have "list_all (\<lambda>r. r < Suc (length (objects a))) (monitors a)"
    using old(2) by (auto simp: list_all_iff)
  ultimately show ?thesis
    using old new r o m assms(5,6) by (simp add: app_ok_def)
qed

lemma app_ok_init_tiles: "app_ok a \<Longrightarrow> app_ok (init_device_tiles idx ds a)"
proof (induction idx ds a rule: init_device_tiles.induct)
  case (1 idx a)
  then show ?case by simp
next
  case (2 idx addr nm ds a)
  let ?a1 = "if idx mod TILE_COLUMNS = 0 then a\<lparr>row_frames := row_frames a @ [0]\<rparr> else a"
  obtain r a2 where d: "DeviceMonitor_init (length (row_frames ?a1) - 1) addr nm ?a1 = (r, a2)"
    by (cases "DeviceMonitor_init (length (row_frames ?a1) - 1) addr nm ?a1")
  have "app_ok (a2\<lparr>monitors := monitors a2 @ [r]\<rparr>)"
    by (rule app_ok_new [OF "2.prems" _ _ d]) simp_all
  from "2.IH" [OF refl d [symmetric] refl this] d show ?case by (simp add: Let_def)
qed

lemma app_ok_init: "app_ok (NetMonitorApp_init devs)"
  unfolding NetMonitorApp_init_def by (rule app_ok_init_tiles) (simp add: app_ok_def)

lemma add_device_new:
  assumes "settings a = Some devs" "addr \<noteq> []" "addr \<notin> set (map fst devs)" "nm \<noteq> []"
  shows "add_device (Some addr) (Some nm) io a =
     Inr (let a1 = (if row_frames a = [] \<or> TILE_COLUMNS \<le> last (row_frames a)
                    then a\<lparr>row_frames := row_frames a @ [0]\<rparr> else a);
              (r, a2) = DeviceMonitor_init (length (row_frames a1) - 1) addr nm a1;
              a3 = a2\<lparr>monitors := monitors a2 @ [r],
                      settings := Some (AList.update addr nm devs)\<rparr>;
              a4 = save_json io a3
          in (if timer_running a4 then start_monitoring r a4 else a4))"
  using assms unfolding add_device_def by (simp add: Let_def split: prod.splits)

lemma add_device_cases:
  assumes "add_device ip_answer name_answer io a = Inr a'"
  shows "a' = a \<or> (\<exists>addr nm devs. ip_answer = Some addr \<and> name_answer = Some nm
           \<and> settings a = Some devs \<and> addr \<noteq> [] \<and> addr \<notin> set (map fst devs) \<and> nm \<noteq> [])"
proof (cases ip_answer)
  case None
  then show ?thesis using assms by (simp add: add_device_def)
next
  case (Some addr)
  show ?thesis
  proof (cases "addr = []")
    case True
    then show ?thesis using assms Some by (simp add: add_device_def)
  next
    case ne: False
    show ?thesis
    proof (cases "settings a")
      case None
      then show ?thesis using assms Some ne by (simp add: add_device_def)
    next
      case devs: (Some devs)
      show ?thesis
      proof (cases "addr \<in> set (map fst devs)")
        case True
        then show ?thesis using assms Some ne devs by (simp add: add_device_def)
      next
        case fresh: False
        show ?thesis
        proof (cases name_answer)
          case None
          then show ?thesis using assms Some ne devs fresh by (simp add: add_device_def)
        next
          case nm: (Some nm)
          show ?thesis
          proof (cases "nm = []")
            case True
            then show ?thesis using assms Some ne devs fresh nm by (simp add: add_device_def)
          next
            case False
            then show ?thesis using Some ne devs fresh nm by blast
          qed
        qed
      qed
    qed
  qed
qed

lemma app_ok_add:
  assumes "app_ok a" "add_device ip_answer name_answer io a = Inr a'"
  shows "app_ok a'"
proof (cases "a' = a")
  case True
  then show ?thesis using assms(1) by simp
next
  case False
  then obtain addr nm devs where c: "ip_answer = Some addr" "name_answer = Some nm"
    "settings a = Some devs" "addr \<noteq> []" "addr \<notin> set (map fst devs)" "nm \<noteq> []"
    using add_device_cases [OF assms(2)] by blast
  let ?a1 = "if row_frames a = [] \<or> TILE_COLUMNS \<le> last (row_frames a)
             then a\<lparr>row_frames := row_frames a @ [0]\<rparr> else a"
  obtain r a2 where d: "DeviceMonitor_init (length (row_frames ?a1) - 1) addr nm ?a1 = (r, a2)"
    by (cases "DeviceMonitor_init (length (row_frames ?a1) - 1) addr nm ?a1")
  let ?a3 = "a2\<lparr>monitors := monitors a2 @ [r], settings := Some (AList.update addr nm devs)\<rparr>"
  have "app_ok ?a3" by (rule app_ok_new [OF assms(1) _ _ d]) simp_all
  then have 4: "app_ok (save_json io ?a3)" by (simp add: app_ok_save_json)
  have "a' = (if timer_running (save_json io ?a3) then start_monitoring r (save_json io ?a3)
              else save_json io ?a3)"
    using assms(2) add_device_new [OF c(3-6), of io] c(1,2) d by (simp add: Let_def)
  then show ?thesis using 4 app_ok_start by simp
qed

lemma app_ok_remove:
  assumes "app_ok a"
  shows "app_ok (a\<lparr>monitors := remove1 m (monitors a)\<rparr>)"
proof -
  have "set (remove1 m (monitors a)) \<subseteq> set (monitors a)" by (rule set_remove1_subset)
  then show ?thesis using assms by (auto simp: app_ok_def list_all_iff)
qed

lemma app_ok_delete_each:
  "app_ok a \<Longrightarrow> (case delete_each ms a of Inl x \<Rightarrow> app_ok (snd x) | Inr a' \<Rightarrow> app_ok a')"
proof (induction ms arbitrary: a)
  case Nil
  then show ?case by simp
next
  case (Cons m ms)
  let ?a1 = "stop_monitoring m a"
  let ?a2 = "?a1\<lparr>monitors := remove1 m (monitors ?a1)\<rparr>"
  have 1: "app_ok ?a1" using Cons.prems by (rule app_ok_stop)
  then have 2: "app_ok ?a2" by (rule app_ok_remove)
  show ?case
  proof (cases "m \<in> set (monitors ?a1)")
    case False
    then show ?thesis using 1 by (simp add: Let_def)
  next
    case True
    show ?thesis
    proof (cases "settings ?a2")
      case None
      then show ?thesis using True 2 by (simp add: Let_def)
    next
      case (Some devs)
      let ?a3 = "?a2\<lparr>settings := Some (AList.delete (ip (deref ?a2 m)) devs)\<rparr>"
      let ?a4 = "?a3\<lparr>row_frames := (row_frames ?a3)[frame (deref ?a3 m) :=
                    row_frames ?a3 ! frame (deref ?a3 m) - 1]\<rparr>"
      have "app_ok ?a4 = app_ok ?a2" by (rule app_ok_cong) simp_all
      then have "app_ok ?a4" using 2 by simp
      from Cons.IH [OF this] have
        "case delete_each ms ?a4 of Inl x \<Rightarrow> app_ok (snd x) | Inr a' \<Rightarrow> app_ok a'" .
      moreover have "delete_each (m # ms) a = delete_each ms ?a4"
        using True Some by (simp add: Let_def)
      ultimately show ?thesis by simp
    qed
  qed
qed

lemma app_ok_delete:
  assumes "app_ok a" "delete_devices selected confirmed io a = Inr a'"
  shows "app_ok a'"
proof -
  from app_ok_delete_each [OF assms(1), of "filter selected (monitors a)"]
  show ?thesis using assms
    by (auto simp: delete_devices_def Let_def app_ok_save_json split: if_splits sum.splits)
qed

lemma app_ok_delete_raises:
  assumes "app_ok a" "delete_devices selected confirmed io a = Inl (e, a')"
  shows "app_ok a'"
proof -
  from app_ok_delete_each [OF assms(1), of "filter selected (monitors a)"]
  show ?thesis using assms
    by (auto simp: delete_devices_def Let_def split: if_splits sum.splits)
qed

lemma app_ok_rename_store:
  assumes "app_ok a" "self < length (objects a)"
  shows "app_ok (store self ((deref a self)\<lparr>name := nm\<rparr>) a)"
  using app_ok_store [OF assms(1), of "(deref a self)\<lparr>name := nm\<rparr>" self]
    app_ok_deref [OF assms] by simp

lemma app_ok_settings: "app_ok (a\<lparr>settings := x\<rparr>) = app_ok a"
  by (simp add: app_ok_def)

lemma app_ok_rename:
  assumes "app_ok a" "self < length (objects a)" "rename_device self answer io a = Inr a'"
  shows "app_ok a'"
  using assms(3) app_ok_rename_store [OF assms(1,2)] assms(1)
  by (auto simp: rename_device_def Let_def app_ok_save_json app_ok_settings
      split: option.splits if_splits)

lemma app_ok_rename_raises:
  assumes "app_ok a" "self < length (objects a)" "rename_device self answer io a = Inl (e, a')"
  shows "app_ok a'"
  using assms(3) app_ok_rename_store [OF assms(1,2)] assms(1)
  by (auto simp: rename_device_def Let_def split: option.splits if_splits)

lemma app_ok_timer: "app_ok (update_timer now a) = app_ok a"
  by (simp add: update_timer_def Let_def app_ok_def split: option.splits)

lemma app_ok_clear: "app_ok (clear_log a) = app_ok a"
  by (simp add: clear_log_def app_ok_def)

lemma app_ok_summary: "show_summary_upd a = Inr a' \<Longrightarrow> app_ok a' = app_ok a"
  by (auto simp: show_summary_upd_def app_ok_def split: sum.splits)

lemma perform_app_ok: "app_ok a \<Longrightarrow> app_ok (perform act a)"
proof (cases act)
  case (Pass self p ts)
  assume "app_ok a"
  then show ?thesis using Pass by (simp add: app_ok_pass)
next
  case (Start_monitoring started now ts io finished)
  assume "app_ok a"
  then show ?thesis using Start_monitoring by (simp add: app_ok_app_start)
next
  case Stop_monitoring
  assume "app_ok a"
  then show ?thesis using Stop_monitoring by (simp add: app_ok_app_stop)
next
  case Reset_all
  assume "app_ok a"
  then show ?thesis using Reset_all by (simp add: app_ok_reset_all)
next
  case (Add_device ip_answer name_answer io)
  assume ok: "app_ok a"
  show ?thesis
  proof (cases "add_device ip_answer name_answer io a")
    case (Inl x)
    then have "snd x = a" by (auto simp: add_device_def Let_def split: option.splits if_splits prod.splits)
    then show ?thesis using Add_device Inl ok by simp
  next
    case (Inr a')
    then show ?thesis using Add_device app_ok_add [OF ok Inr] by simp
  qed
next
  case (Delete_devices selected confirmed io)
  assume ok: "app_ok a"
  show ?thesis
  proof (cases "delete_devices selected confirmed io a")
    case (Inl x)
    then have "delete_devices selected confirmed io a = Inl (fst x, snd x)" by simp
    from app_ok_delete_raises [OF ok this] show ?thesis using Delete_devices Inl by simp
  next
    case (Inr a')
    then show ?thesis using Delete_devices app_ok_delete [OF ok Inr] by simp
  qed
next
  case (Rename_device self answer io)
  assume ok: "app_ok a"
  show ?thesis
  proof (cases "self < length (objects a)")
    case False
    then show ?thesis using Rename_device ok by simp
  next
    case True
    show ?thesis
    proof (cases "rename_device self answer io a")
      case (Inl x)
      then have "rename_device self answer io a = Inl (fst x, snd x)" by simp
      from app_ok_rename_raises [OF ok True this] show ?thesis using Rename_device Inl True by simp
    next
      case (Inr a')
      then show ?thesis using Rename_device True app_ok_rename [OF ok True Inr] by simp
    qed
  qed
next
  case (Save_log notify ts io finished)
  assume "app_ok a"
  then show ?thesis using Save_log by (simp add: app_ok_save_log)
next
  case Clear_log
  assume "app_ok a"
  then show ?thesis using Clear_log by (simp add: app_ok_clear)
next
  case (Auto_save now ts io finished)
  assume "app_ok a"
  then show ?thesis using Auto_save by (simp add: app_ok_job)
next
  case (Update_timer now)
  assume "app_ok a"
  then show ?thesis using Update_timer by (simp add: app_ok_timer)
next
  case On_close
  assume "app_ok a"
  then show ?thesis using On_close by (simp add: app_ok_cancel)
next
  case (Save_json io)
  assume "app_ok a"
  then show ?thesis using Save_json by (simp add: app_ok_save_json)
next
  case Show_summary
  assume ok: "app_ok a"
  show ?thesis
  proof (cases "show_summary_upd a")
    case (Inl e)
    then show ?thesis using Show_summary ok by simp
  next
    case (Inr a')
    then show ?thesis using Show_summary ok app_ok_summary [OF Inr] by simp
  qed
qed

lemma execute_app_ok: "app_ok a \<Longrightarrow> app_ok (execute acts a)"
  by (induction acts arbitrary: a) (simp_all add: perform_app_ok)

lemma execute_append: "execute (xs @ ys) a = execute ys (execute xs a)"
  by (induction xs arbitrary: a) simp_all

subsection \<open>What the handlers leave alone\<close>

text \<open>
  No handler touches \<open>is_down\<close>, \<open>current_downtime_start\<close> or \<open>downtime_summary\<close>, and
  none removes an object.
\<close>

lemma downtime_kept_refl: "downtime_kept a a"
  by (simp add: downtime_kept_def)

lemma downtime_kept_trans: "downtime_kept a b \<Longrightarrow> downtime_kept b c \<Longrightarrow> downtime_kept a c"
  by (auto simp: downtime_kept_def)

lemma downtime_kept_objects: "objects a' = objects a \<Longrightarrow> downtime_kept a a'"
  by (simp add: downtime_kept_def deref_def)

lemma downtime_kept_store:
  assumes "is_down m = is_down (deref a r)"
    "current_downtime_start m = current_downtime_start (deref a r)"
    "downtime_summary m = downtime_summary (deref a r)"
  shows "downtime_kept a (store r m a)"
  using assms by (auto simp: downtime_kept_def store_def deref_def nth_update_at)

lemma downtime_kept_start: "downtime_kept a (start_monitoring r a)"
proof -
  have "downtime_kept a (store r ((deref a r)\<lparr>is_monitoring := Some True\<rparr>) a)"
    by (rule downtime_kept_store) simp_all
  moreover have "downtime_kept (store r ((deref a r)\<lparr>is_monitoring := Some True\<rparr>) a) (start_monitoring r a)"
    by (rule downtime_kept_objects) (simp add: start_monitoring_def Let_def)
  ultimately show ?thesis by (rule downtime_kept_trans)
qed

lemma downtime_kept_stop: "downtime_kept a (stop_monitoring r a)"
  unfolding stop_monitoring_def by (rule downtime_kept_store) simp_all

lemma downtime_kept_reset: "downtime_kept a (reset r a)"
  unfolding reset_def by (rule downtime_kept_store) simp_all

lemma downtime_kept_foldl:
  assumes "\<And>s m. downtime_kept s (f m s)"
  shows "downtime_kept a (foldl (\<lambda>s m. f m s) a ms)"
proof (induction ms arbitrary: a)
  case Nil
  show ?case by (simp add: downtime_kept_refl)
next
  case (Cons m ms)
  from downtime_kept_trans [OF assms [of a m] Cons.IH [of "f m a"]] show ?case by simp
qed

lemma downtime_kept_save_json: "downtime_kept a (save_json io a)"
  by (rule downtime_kept_objects) (cases io; simp add: save_json_def log_error_def)

lemma downtime_kept_save_log: "downtime_kept a (snd (save_log notify ts io finished a))"
  by (rule downtime_kept_objects) (cases io; simp add: save_log_def log_error_def)

lemma downtime_kept_job: "downtime_kept a (auto_save_job now ts io finished a)"
proof -
  have "objects (snd (save_log False ts io finished a)) = objects a"
    by (cases io; simp add: save_log_def log_error_def)
  then show ?thesis by (intro downtime_kept_objects) (simp add: auto_save_job_def Let_def)
qed

lemma downtime_kept_cancel: "downtime_kept a (cancel_timer a)"
  by (rule downtime_kept_objects) (simp add: cancel_timer_def split: option.splits)

lemma downtime_kept_app_start: "downtime_kept a (app_start_monitoring started now ts io finished a)"
proof -
  let ?a1 = "if \<not> timer_running a
                then auto_save_job now ts io finished
                       (a\<lparr>timer_running := True, start_time := Some started,
                          last_save_time := Some started\<rparr>)
                else a"
  have "downtime_kept a (a\<lparr>timer_running := True, start_time := Some started,
                          last_save_time := Some started\<rparr>)"
    by (rule downtime_kept_objects) simp
  then have 1: "downtime_kept a ?a1"
    using downtime_kept_trans [OF _ downtime_kept_job] downtime_kept_refl by simp
  have "downtime_kept ?a1 (foldl (\<lambda>s m. start_monitoring m s) ?a1 (monitors ?a1))"
    by (rule downtime_kept_foldl) (rule downtime_kept_start)
  from downtime_kept_trans [OF 1 this] show ?thesis
    by (simp add: app_start_monitoring_def Let_def)
qed

lemma downtime_kept_app_stop: "downtime_kept a (app_stop_monitoring a)"
proof -
  let ?a1 = "if timer_running a then cancel_timer (a\<lparr>timer_running := False\<rparr>) else a"
  have "downtime_kept a (a\<lparr>timer_running := False\<rparr>)"
    by (rule downtime_kept_objects) simp
  then have 1: "downtime_kept a ?a1"
    using downtime_kept_trans [OF _ downtime_kept_cancel] downtime_kept_refl by simp
  have "downtime_kept ?a1 (foldl (\<lambda>s m. stop_monitoring m s) ?a1 (monitors ?a1))"
    by (rule downtime_kept_foldl) (rule downtime_kept_stop)
  from downtime_kept_trans [OF 1 this] show ?thesis
    by (simp add: app_stop_monitoring_def Let_def)
qed

lemma downtime_kept_reset_all: "downtime_kept a (reset_all a)"
proof -
  have 1: "downtime_kept a (foldl (\<lambda>s m. reset m s) a (monitors a))"
    by (rule downtime_kept_foldl) (rule downtime_kept_reset)
  have "downtime_kept (foldl (\<lambda>s m. reset m s) a (monitors a)) (reset_all a)"
    by (rule downtime_kept_objects) (simp add: reset_all_def)
  from downtime_kept_trans [OF 1 this] show ?thesis .
qed

lemma downtime_kept_new:
  "downtime_kept a (snd (DeviceMonitor_init parent addr nm a))"
  by (auto simp: downtime_kept_def DeviceMonitor_init_def deref_def nth_append)

lemma downtime_kept_add: "downtime_kept a (case add_device ip_answer name_answer io a of Inl x \<Rightarrow> snd x | Inr a' \<Rightarrow> a')"
proof (cases "add_device ip_answer name_answer io a")
  case (Inl x)
  then have "snd x = a"
    by (auto simp: add_device_def Let_def split: option.splits if_splits prod.splits)
  then show ?thesis using Inl by (simp add: downtime_kept_refl)
next
  case (Inr a')
  show ?thesis
  proof (cases "a' = a")
    case True
    then show ?thesis using Inr by (simp add: downtime_kept_refl)
  next
    case False
    then obtain addr nm devs where c: "ip_answer = Some addr" "name_answer = Some nm"
      "settings a = Some devs" "addr \<noteq> []" "addr \<notin> set (map fst devs)" "nm \<noteq> []"
      using add_device_cases [OF Inr] by blast
    let ?a1 = "if row_frames a = [] \<or> TILE_COLUMNS \<le> last (row_frames a)
               then a\<lparr>row_frames := row_frames a @ [0]\<rparr> else a"
    obtain r a2 where d: "DeviceMonitor_init (length (row_frames ?a1) - 1) addr nm ?a1 = (r, a2)"
      by (cases "DeviceMonitor_init (length (row_frames ?a1) - 1) addr nm ?a1")
    let ?a3 = "a2\<lparr>monitors := monitors a2 @ [r], settings := Some (AList.update addr nm devs)\<rparr>"
    have 1: "downtime_kept a ?a1" by (rule downtime_kept_objects) simp
    have 2: "downtime_kept ?a1 a2"
      using downtime_kept_new [of ?a1 "length (row_frames ?a1) - 1" addr nm] d by simp
    have 3: "downtime_kept a2 ?a3" by (rule downtime_kept_objects) simp
    have 4: "downtime_kept ?a3 (save_json io ?a3)" by (rule downtime_kept_save_json)
    have 5: "downtime_kept a (save_json io ?a3)"
      using downtime_kept_trans [OF downtime_kept_trans [OF downtime_kept_trans [OF 1 2] 3] 4] .
    have "a' = (if timer_running (save_json io ?a3) then start_monitoring r (save_json io ?a3)
                else save_json io ?a3)"
      using Inr add_device_new [OF c(3-6), of io] c(1,2) d by (simp add: Let_def)
    then show ?thesis using Inr 5 downtime_kept_trans [OF 5 downtime_kept_start] by simp
  qed
qed

lemma downtime_kept_delete_each:
  "(case delete_each ms a of Inl x \<Rightarrow> downtime_kept a (snd x) | Inr a' \<Rightarrow> downtime_kept a a')"
proof (induction ms arbitrary: a)
  case Nil
  show ?case by (simp add: downtime_kept_refl)
next
  case (Cons m ms)
  let ?a1 = "stop_monitoring m a"
  let ?a2 = "?a1\<lparr>monitors := remove1 m (monitors ?a1)\<rparr>"
  have 1: "downtime_kept a ?a1" by (rule downtime_kept_stop)
  have 2: "downtime_kept a ?a2"
    by (rule downtime_kept_trans [OF 1]) (rule downtime_kept_objects, simp)
  show ?case
  proof (cases "m \<in> set (monitors ?a1)")
    case False
    then show ?thesis using 1 by (simp add: Let_def)
  next
    case True
    show ?thesis
    proof (cases "settings ?a2")
      case None
      then show ?thesis using True 2 by (simp add: Let_def)
    next
      case (Some devs)
      let ?a3 = "?a2\<lparr>settings := Some (AList.delete (ip (deref ?a2 m)) devs)\<rparr>"
      let ?a4 = "?a3\<lparr>row_frames := (row_frames ?a3)[frame (deref ?a3 m) :=
                    row_frames ?a3 ! frame (deref ?a3 m) - 1]\<rparr>"
      have 4: "downtime_kept a ?a4"
        by (rule downtime_kept_trans [OF 2]) (rule downtime_kept_objects, simp)
      have e: "delete_each (m # ms) a = delete_each ms ?a4"
        using True Some by (simp add: Let_def)
      show ?thesis
      proof (cases "delete_each ms ?a4")
        case (Inl x)
        with Cons.IH [of ?a4] have "downtime_kept ?a4 (snd x)" by simp
        from downtime_kept_trans [OF 4 this] show ?thesis using e Inl by simp
      next
        case (Inr a')
        with Cons.IH [of ?a4] have "downtime_kept ?a4 a'" by simp
        from downtime_kept_trans [OF 4 this] show ?thesis using e Inr by simp
      qed
    qed
  qed
qed

lemma downtime_kept_delete:
  "downtime_kept a (case delete_devices selected confirmed io a of Inl x \<Rightarrow> snd x | Inr a' \<Rightarrow> a')"
proof -
  from downtime_kept_delete_each [where ms = "filter selected (monitors a)" and a = a]
  show ?thesis
    using downtime_kept_trans [OF _ downtime_kept_save_json]
    by (auto simp: delete_devices_def Let_def downtime_kept_refl split: sum.splits)
qed

lemma downtime_kept_rename:
  "downtime_kept a (case rename_device self answer io a of Inl x \<Rightarrow> snd x | Inr a' \<Rightarrow> a')"
proof -
  have 1: "downtime_kept a (store self ((deref a self)\<lparr>name := nm\<rparr>) a)" for nm
    by (rule downtime_kept_store) simp_all
  have 2: "downtime_kept a (save_json io ((store self ((deref a self)\<lparr>name := nm\<rparr>) a)\<lparr>settings := x\<rparr>))" for nm x
    by (rule downtime_kept_trans [OF 1 [of nm]], rule downtime_kept_trans [OF _ downtime_kept_save_json])
       (rule downtime_kept_objects, simp)
  show ?thesis
    using 1 2 by (auto simp: rename_device_def Let_def downtime_kept_refl split: option.splits)
qed

lemma downtime_kept_timer: "downtime_kept a (update_timer now a)"
  by (rule downtime_kept_objects) (simp add: update_timer_def Let_def split: option.splits)

lemma downtime_kept_summary:
  "downtime_kept a (case show_summary_upd a of Inl e \<Rightarrow> a | Inr a' \<Rightarrow> a')"
  by (auto simp: show_summary_upd_def downtime_kept_refl split: sum.splits
      intro!: downtime_kept_objects)

lemma perform_downtime_kept:
  assumes "\<And>self p ts. act \<noteq> Pass self p ts"
  shows "downtime_kept a (perform act a)"
proof (cases act)
  case (Pass self p ts)
  then show ?thesis using assms by simp
qed (simp_all add: downtime_kept_app_start downtime_kept_app_stop downtime_kept_reset_all
      downtime_kept_add downtime_kept_delete downtime_kept_rename downtime_kept_refl
      downtime_kept_save_log clear_log_def downtime_kept_objects downtime_kept_job
      downtime_kept_timer downtime_kept_cancel downtime_kept_save_json downtime_kept_summary)

subsection \<open>One action, seen from one device\<close>


lemma perform_other:
  assumes "r < length (objects a)"
    and "\<not> (\<exists>p ts. act = Pass r p ts \<and> r \<in> set (threads a))"
  shows "r < length (objects (perform act a))"
    and "is_down (deref (perform act a) r) = is_down (deref a r)"
    and "current_downtime_start (deref (perform act a) r) = current_downtime_start (deref a r)"
    and "downtime_summary (deref (perform act a) r) = downtime_summary (deref a r)"
proof -
  have "r < length (objects (perform act a)) \<and>
        is_down (deref (perform act a) r) = is_down (deref a r) \<and>
        current_downtime_start (deref (perform act a) r) = current_downtime_start (deref a r) \<and>
        downtime_summary (deref (perform act a) r) = downtime_summary (deref a r)"
  proof (cases "\<exists>self p ts. act = Pass self p ts")
    case False
    then have "downtime_kept a (perform act a)" by (intro perform_downtime_kept) auto
    then show ?thesis using assms(1) by (auto simp: downtime_kept_def)
  next
    case True
    then obtain self p ts where act: "act = Pass self p ts" by blast
    show ?thesis
    proof (cases "self < length (objects a) \<and> self \<in> set (threads a)")
      case False
      then show ?thesis using act assms(1) by auto
    next
      case True
      then have ne: "r \<noteq> self" using assms(2) act by auto
      from True have v: "self < length (objects a)" by simp
      from iteration_frame(1) [OF v, where ev = "(p, ts)"] iteration_frame(4) [OF v ne, where ev = "(p, ts)"]
      show ?thesis using act True assms(1) by simp
    qed
  qed
  then show "r < length (objects (perform act a))"
    and "is_down (deref (perform act a) r) = is_down (deref a r)"
    and "current_downtime_start (deref (perform act a) r) = current_downtime_start (deref a r)"
    and "downtime_summary (deref (perform act a) r) = downtime_summary (deref a r)"
    by simp_all
qed

lemma perform_length:
  assumes "r < length (objects a)"
  shows "r < length (objects (perform act a))"
proof (cases "\<exists>p ts. act = Pass r p ts \<and> r \<in> set (threads a)")
  case False
  from perform_other(1) [OF assms False] show ?thesis .
next
  case True
  then obtain p ts where "act = Pass r p ts" by blast
  then show ?thesis using assms iteration_frame(1) [OF assms, where ev = "(p, ts)"] by simp
qed


lemma execute_length:
  "r < length (objects a) \<Longrightarrow> r < length (objects (execute acts a))"
  by (induction acts arbitrary: a) (simp_all add: perform_length)












subsection \<open>What follows from the missing attribute\<close>

text \<open>
  In every state that a sequence of actions reaches from \<open>__init__\<close>: no object has the
  attribute; a pass that gets a reply for a device that is down clears \<open>is_down\<close>, raises, is
  logged, and appends no sample; the summary consists of the lines of the open intervals; and
  every buffer is within its bound.
\<close>

lemma no_attribute_in_any_state:
  assumes "r < length (objects (execute acts (NetMonitorApp_init devs)))"
  shows "downtime_summary (deref (execute acts (NetMonitorApp_init devs)) r) = None"
  using app_ok_deref [OF execute_app_ok [OF app_ok_init, of acts devs] assms]
  by (simp add: monitor_ok_def)

lemma closing_pass_never_completes:
  assumes "a = execute acts (NetMonitorApp_init devs)"
    and "self < length (objects a)" "is_down (deref a self)" "\<not> lost_in out"
  shows "monitor_iteration self (Probe_out out, ts) a =
     log_error (Monitor_failed (ip (deref a self))
                  (if self \<in> set (monitors a) then AttributeError else ValueError))
       (store self ((deref a self)\<lparr>is_down := False\<rparr>) a)"
    and "availability (deref (monitor_iteration self (Probe_out out, ts) a) self) =
           availability (deref a self)"
proof -
  have n: "self \<notin> set (monitors a) \<or> downtime_summary (deref a self) = None"
    using no_attribute_in_any_state [of self acts devs] assms(1,2) by simp
  from iteration_close_fails [OF assms(2,4,3) n] show "monitor_iteration self (Probe_out out, ts) a =
     log_error (Monitor_failed (ip (deref a self))
                  (if self \<in> set (monitors a) then AttributeError else ValueError))
       (store self ((deref a self)\<lparr>is_down := False\<rparr>) a)" .
  from close_fails_fields(1) [OF assms(2,4,3) n, of ts]
  show "availability (deref (monitor_iteration self (Probe_out out, ts) a) self) =
           availability (deref a self)" by simp
qed

lemma summary_in_any_state:
  assumes "a = execute acts (NetMonitorApp_init devs)"
  shows "all_lines (map (deref a) (monitors a)) =
     Inr (concat (map (\<lambda>m. if is_down m then [Ongoing (the (current_downtime_start m)) (name m)] else [])
                    (map (deref a) (monitors a))))"
proof -
  have ok: "app_ok a" unfolding assms by (rule execute_app_ok [OF app_ok_init])
  have l: "r < length (objects a)" if "r \<in> set (monitors a)" for r
    using ok that by (simp add: app_ok_def list_all_iff)
  have m: "monitor_ok (deref a r)" if "r \<in> set (monitors a)" for r
    using app_ok_deref [OF ok l [OF that]] .
  have h: "\<forall>m\<in>set (map (deref a) (monitors a)).
              (\<forall>i\<in>set (recorded_intervals m). fst i \<noteq> None)
              \<and> (is_down m \<longrightarrow> current_downtime_start m \<noteq> None)"
    using m by (auto simp: monitor_ok_def recorded_intervals_def)
  have none: "recorded_intervals (deref a r) = []" if "r \<in> set (monitors a)" for r
    using m [OF that] by (simp add: monitor_ok_def recorded_intervals_def)
  have "concat (map (\<lambda>m. map (\<lambda>i. Closed (the (fst i)) (snd i) (name m)) (recorded_intervals m) @
          (if is_down m then [Ongoing (the (current_downtime_start m)) (name m)] else []))
          (map (deref a) (monitors a)))
      = concat (map (\<lambda>m. if is_down m then [Ongoing (the (current_downtime_start m)) (name m)] else [])
          (map (deref a) (monitors a)))"
    by (rule arg_cong [where f = concat]) (simp add: none)
  with all_lines_ok [OF h] show ?thesis by simp
qed

lemma buffers_in_any_state:
  assumes "r < length (objects (execute acts (NetMonitorApp_init devs)))"
  shows "length (availability (deref (execute acts (NetMonitorApp_init devs)) r)) \<le> 720"
    and "set (availability (deref (execute acts (NetMonitorApp_init devs)) r)) \<subseteq> {0, 1}"
  using app_ok_deref [OF execute_app_ok [OF app_ok_init, of acts devs] assms]
  by (simp_all add: monitor_ok_def)

subsection \<open>The downtime intervals of a device\<close>

lemma init_downtime_inv_aux:
  assumes "\<forall>m\<in>set (objects a). \<not> is_down m \<and> downtime_summary m = None"
  shows "\<forall>m\<in>set (objects (init_device_tiles idx ds a)). \<not> is_down m \<and> downtime_summary m = None"
  using assms
proof (induction idx ds a rule: init_device_tiles.induct)
  case (1 idx a)
  then show ?case by simp
next
  case (2 idx addr nm ds a)
  let ?a1 = "if idx mod TILE_COLUMNS = 0 then a\<lparr>row_frames := row_frames a @ [0]\<rparr> else a"
  obtain r a2 where d: "DeviceMonitor_init (length (row_frames ?a1) - 1) addr nm ?a1 = (r, a2)"
    by (cases "DeviceMonitor_init (length (row_frames ?a1) - 1) addr nm ?a1")
  have o: "objects ?a1 = objects a" by simp
  have "objects a2 = objects ?a1 @
          [\<lparr>ip = addr, name = nm, availability = [], is_down = False,
            current_downtime_start = None, downtime_summary = None,
            is_monitoring = None, packet_loss_label = Loss_zero,
            frame = length (row_frames ?a1) - 1\<rparr>]"
    using d by (auto simp: DeviceMonitor_init_def)
  then have "\<forall>m\<in>set (objects (a2\<lparr>monitors := monitors a2 @ [r]\<rparr>)). \<not> is_down m \<and> downtime_summary m = None"
    using "2.prems" unfolding o by auto
  from "2.IH" [OF refl refl d [symmetric] this] show ?case using d by (simp add: Let_def)
qed

lemma init_downtime_inv:
  assumes "r < length (objects (NetMonitorApp_init devs))"
  shows "downtime_inv t (deref (NetMonitorApp_init devs) r)"
proof -
  have "\<forall>m\<in>set (objects (NetMonitorApp_init devs)). \<not> is_down m \<and> downtime_summary m = None"
    unfolding NetMonitorApp_init_def by (rule init_downtime_inv_aux) simp
  then have "\<not> is_down (deref (NetMonitorApp_init devs) r) \<and> downtime_summary (deref (NetMonitorApp_init devs) r) = None"
    using assms by (simp add: deref_def)
  then show ?thesis
    by (simp add: downtime_inv_def recorded_intervals_def ordered_intervals_def)
qed


text \<open>
  A run of the loop of a monitor whose thread was started is a sequence of passes of that
  monitor, and the branches of the run are the branches of the sequence.
\<close>

lemma iteration_threads:
  assumes "self < length (objects a)"
  shows "threads (monitor_iteration self ev a) = threads a"
proof (cases rule: pass_cases [where ev = ev and a = a and self = self])
  case (raised e ts)
  then show ?thesis by (simp add: iteration_raises log_error_def)
next
  case (completed out ts)
  from iteration_completed [OF assms completed(2), of ts] show ?thesis
    using completed(1) by (auto simp: store_def extend_log_def)
next
  case (close_fails out ts)
  from iteration_close_fails [OF assms close_fails(2-4), of ts] show ?thesis
    using close_fails(1) by (simp add: store_def log_error_def)
qed

lemma loop_is_passes:
  assumes "self < length (objects a)" "self \<in> set (threads a)"
  shows "\<exists>n. monitor_loop self evs a =
               execute (map (\<lambda>ev. Pass self (fst ev) (snd ev)) (take n evs)) a
           \<and> transitions self evs a =
               device_transitions self (map (\<lambda>ev. Pass self (fst ev) (snd ev)) (take n evs)) a"
  using assms
proof (induction evs arbitrary: a)
  case Nil
  show ?case by simp
next
  case (Cons ev evs)
  show ?case
  proof (cases "is_monitoring (deref a self) = Some True")
    case False
    have "monitor_loop self (ev # evs) a =
               execute (map (\<lambda>ev. Pass self (fst ev) (snd ev)) (take 0 (ev # evs))) a
           \<and> transitions self (ev # evs) a =
               device_transitions self (map (\<lambda>ev. Pass self (fst ev) (snd ev)) (take 0 (ev # evs))) a"
      using False by simp
    then show ?thesis by blast
  next
    case True
    let ?a1 = "monitor_iteration self ev a"
    have v: "self < length (objects ?a1)"
      using iteration_frame(1) [OF Cons.prems(1), of ev] Cons.prems(1) by simp
    have t: "self \<in> set (threads ?a1)"
      using iteration_threads [OF Cons.prems(1), of ev] Cons.prems(2) by simp
    from Cons.IH [OF v t] obtain n where
      n: "monitor_loop self evs ?a1 =
               execute (map (\<lambda>ev. Pass self (fst ev) (snd ev)) (take n evs)) ?a1"
         "transitions self evs ?a1 =
               device_transitions self (map (\<lambda>ev. Pass self (fst ev) (snd ev)) (take n evs)) ?a1"
      by blast
    have "monitor_loop self (ev # evs) a =
               execute (map (\<lambda>ev. Pass self (fst ev) (snd ev)) (take (Suc n) (ev # evs))) a
           \<and> transitions self (ev # evs) a =
               device_transitions self (map (\<lambda>ev. Pass self (fst ev) (snd ev)) (take (Suc n) (ev # evs))) a"
      using True n Cons.prems by (simp add: action_transition_def)
    then show ?thesis by blast
  qed
qed



end
